theory Spec2Isabelle
  imports Complex_Main
begin

section \<open>Exceptions\<close>

text \<open>
  The exceptions that the modelled code can meet, each with its message. A function
  that can raise returns a sum: \<open>Inl\<close> of the exception, or \<open>Inr\<close> of its value.
\<close>

datatype py_exception =
  RequestException string | HTTPError string | KeyError string | TypeError string
  | IndexError string | ValueError string

fun str_exc :: "py_exception \<Rightarrow> string" where
  \<comment> \<open>\<open>str(e)\<close>, the message\<close>
  "str_exc (RequestException m) = m"
| "str_exc (HTTPError m) = m"
| "str_exc (KeyError m) = m"
| "str_exc (TypeError m) = m"
| "str_exc (IndexError m) = m"
| "str_exc (ValueError m) = m"

section \<open>Python strings\<close>

text \<open>
  A Python \<open>str\<close> is represented by the list of the bytes of its UTF-8 encoding, a
  \<open>bytes\<close> object by the list of its bytes; both are \<open>string\<close>. Every text that
  reaches the functions below was produced by a decoder working with
  \<open>errors='ignore'\<close> or \<open>errors='replace'\<close>, so it has a UTF-8 encoding.
\<close>

definition NL :: char where
  "NL = CHR 0x0A"

definition startswith :: "string \<Rightarrow> string \<Rightarrow> bool" where
  \<comment> \<open>\<open>s.startswith(p)\<close>\<close>
  "startswith s p = (take (length p) s = p)"

fun str_in :: "string \<Rightarrow> string \<Rightarrow> bool" where
  \<comment> \<open>\<open>sub in s\<close>\<close>
  "str_in sub [] = (sub = [])"
| "str_in sub (c # cs) = (startswith (c # cs) sub \<or> str_in sub cs)"

fun str_join :: "string \<Rightarrow> string list \<Rightarrow> string" where
  \<comment> \<open>\<open>sep.join(xs)\<close>\<close>
  "str_join sep [] = []"
| "str_join sep [x] = x"
| "str_join sep (x # y # ys) = x @ sep @ str_join sep (y # ys)"

definition replace_char :: "char \<Rightarrow> char \<Rightarrow> string \<Rightarrow> string" where
  \<comment> \<open>\<open>s.replace(a, b)\<close> for one-character \<open>a\<close> and \<open>b\<close>\<close>
  "replace_char a b s = map (\<lambda>c. if c = a then b else c) s"

function str_nat :: "nat \<Rightarrow> string" where
  \<comment> \<open>\<open>str(n)\<close>, as the f-string renders a non-negative int\<close>
  "str_nat n = (if n < 10 then [char_of (48 + n)]
                else str_nat (n div 10) @ [char_of (48 + n mod 10)])"
  by pat_completeness auto
termination
  by (relation "measure id") auto

declare str_nat.simps [simp del]

subsection \<open>splitlines and strip\<close>

text \<open>
  \<open>str.splitlines\<close> breaks at \<open>\n\<close>, \<open>\r\<close>, \<open>\r\n\<close>, \<open>\v\<close>, \<open>\f\<close>, \<open>\x1c\<close>, \<open>\x1d\<close>,
  \<open>\x1e\<close>, U+0085, U+2028 and U+2029; the last three are the byte sequences
  \<open>C2 85\<close>, \<open>E2 80 A8\<close> and \<open>E2 80 A9\<close>. \<open>linebreak_len s\<close> is the number of bytes of
  the line boundary that \<open>s\<close> starts with, or 0.
\<close>

definition linebreak_len :: "string \<Rightarrow> nat" where
  "linebreak_len s =
     (if take 2 s = [CHR 0x0D, CHR 0x0A] then 2
      else if take 1 s \<in> set [[CHR 0x0A], [CHR 0x0D], [CHR 0x0B], [CHR 0x0C],
                               [CHR 0x1C], [CHR 0x1D], [CHR 0x1E]] then 1
      else if take 2 s = [CHR 0xC2, CHR 0x85] then 2
      else if take 3 s \<in> set [[CHR 0xE2, CHR 0x80, CHR 0xA8], [CHR 0xE2, CHR 0x80, CHR 0xA9]] then 3
      else 0)"

lemma linebreak_len_le: "linebreak_len s \<le> length s"
  by (cases s rule: list.exhaust; cases "tl s"; cases "tl (tl s)")
     (auto simp: linebreak_len_def)

function splitlines_from :: "string \<Rightarrow> string \<Rightarrow> string list" where
  \<comment> \<open>\<open>cur\<close> is the line read so far; a final line is kept only when it is not empty\<close>
  "splitlines_from cur s =
     (if s = [] then (if cur = [] then [] else [cur])
      else if linebreak_len s = 0 then splitlines_from (cur @ [hd s]) (tl s)
      else cur # splitlines_from [] (drop (linebreak_len s) s))"
  by pat_completeness auto
termination
proof (relation "measure (\<lambda>(cur, s). length s)")
  show "wf (measure (\<lambda>(cur, s). length s))" by simp
next
  fix cur s :: string
  assume "s \<noteq> []" "linebreak_len s = 0"
  then show "((cur @ [hd s], tl s), (cur, s)) \<in> measure (\<lambda>(cur, s). length s)"
    by (cases s) auto
next
  fix cur s :: string
  assume "s \<noteq> []" "linebreak_len s \<noteq> 0"
  then show "(([], drop (linebreak_len s) s), (cur, s)) \<in> measure (\<lambda>(cur, s). length s)"
    by (cases s) auto
qed

declare splitlines_from.simps [simp del]

definition splitlines :: "string \<Rightarrow> string list" where
  "splitlines s = splitlines_from [] s"

text \<open>
  \<open>str.strip()\<close> removes leading and trailing whitespace: the ASCII characters
  \<open>\t \n \v \f \r \x1c \x1d \x1e \x1f\<close> and space, and U+0085, U+00A0, U+1680,
  U+2000 to U+200A, U+2028, U+2029, U+202F, U+205F and U+3000 in their UTF-8 form.
  \<open>space_len s\<close> is the number of bytes of the whitespace character \<open>s\<close> starts with,
  \<open>space_len_end s\<close> of the one it ends with, or 0.
\<close>

definition ascii_space :: "char list" where
  "ascii_space = [CHR 0x09, CHR 0x0A, CHR 0x0B, CHR 0x0C, CHR 0x0D,
                  CHR 0x1C, CHR 0x1D, CHR 0x1E, CHR 0x1F, CHR 0x20]"

definition wide_space :: "string list" where
  "wide_space =
     [[CHR 0xC2, CHR 0x85], [CHR 0xC2, CHR 0xA0], [CHR 0xE1, CHR 0x9A, CHR 0x80],
      [CHR 0xE2, CHR 0x80, CHR 0x80], [CHR 0xE2, CHR 0x80, CHR 0x81],
      [CHR 0xE2, CHR 0x80, CHR 0x82], [CHR 0xE2, CHR 0x80, CHR 0x83],
      [CHR 0xE2, CHR 0x80, CHR 0x84], [CHR 0xE2, CHR 0x80, CHR 0x85],
      [CHR 0xE2, CHR 0x80, CHR 0x86], [CHR 0xE2, CHR 0x80, CHR 0x87],
      [CHR 0xE2, CHR 0x80, CHR 0x88], [CHR 0xE2, CHR 0x80, CHR 0x89],
      [CHR 0xE2, CHR 0x80, CHR 0x8A], [CHR 0xE2, CHR 0x80, CHR 0xA8],
      [CHR 0xE2, CHR 0x80, CHR 0xA9], [CHR 0xE2, CHR 0x80, CHR 0xAF],
      [CHR 0xE2, CHR 0x81, CHR 0x9F], [CHR 0xE3, CHR 0x80, CHR 0x80]]"

definition space_len :: "string \<Rightarrow> nat" where
  "space_len s =
     (if s \<noteq> [] \<and> hd s \<in> set ascii_space then 1
      else if 2 \<le> length s \<and> take 2 s \<in> set wide_space then 2
      else if 3 \<le> length s \<and> take 3 s \<in> set wide_space then 3
      else 0)"

definition space_len_end :: "string \<Rightarrow> nat" where
  "space_len_end s =
     (if s \<noteq> [] \<and> last s \<in> set ascii_space then 1
      else if 2 \<le> length s \<and> drop (length s - 2) s \<in> set wide_space then 2
      else if 3 \<le> length s \<and> drop (length s - 3) s \<in> set wide_space then 3
      else 0)"

lemma space_len_le: "space_len s \<le> length s"
  by (cases s) (auto simp: space_len_def)

lemma space_len_end_le: "space_len_end s \<le> length s"
  by (cases s) (auto simp: space_len_end_def)

function lstrip :: "string \<Rightarrow> string" where
  "lstrip s = (if space_len s = 0 then s else lstrip (drop (space_len s) s))"
  by pat_completeness auto
termination
proof (relation "measure length")
  show "wf (measure length)" by simp
next
  fix s :: string
  assume "space_len s \<noteq> 0"
  moreover have "space_len s \<le> length s" by (rule space_len_le)
  ultimately show "(drop (space_len s) s, s) \<in> measure length" by simp
qed

function rstrip :: "string \<Rightarrow> string" where
  "rstrip s = (if space_len_end s = 0 then s else rstrip (take (length s - space_len_end s) s))"
  by pat_completeness auto
termination
proof (relation "measure length")
  show "wf (measure length)" by simp
next
  fix s :: string
  assume "space_len_end s \<noteq> 0"
  moreover have "space_len_end s \<le> length s" by (rule space_len_end_le)
  ultimately show "(take (length s - space_len_end s) s, s) \<in> measure length" by simp
qed

declare lstrip.simps [simp del] rstrip.simps [simp del]

definition strip :: "string \<Rightarrow> string" where
  "strip s = rstrip (lstrip s)"

subsection \<open>quote_plus and unquote_plus\<close>

text \<open>
  \<open>urllib.parse.quote(s, safe)\<close> encodes \<open>s\<close> as UTF-8 and writes every byte that is
  neither a letter, a digit, one of \<open>_.-~\<close> nor in \<open>safe\<close> as \<open>%XX\<close> with upper-case
  hexadecimal digits. \<open>quote_plus\<close> calls it as is when \<open>s\<close> has no space, and
  otherwise keeps the spaces and turns them into \<open>+\<close> afterwards.
\<close>

definition always_safe :: "char list" where
  "always_safe = ''ABCDEFGHIJKLMNOPQRSTUVWXYZabcdefghijklmnopqrstuvwxyz0123456789_.-~''"

definition hexdigit :: "nat \<Rightarrow> char" where
  "hexdigit n = ''0123456789ABCDEF'' ! n"

definition percent_byte :: "char \<Rightarrow> string" where
  \<comment> \<open>\<open>'%{:02X}'.format(c)\<close>\<close>
  "percent_byte c = [CHR ''%'', hexdigit (of_char c div 16), hexdigit (of_char c mod 16)]"

definition quote :: "string \<Rightarrow> string \<Rightarrow> string" where
  "quote safe s =
     concat (map (\<lambda>c. if c \<in> set always_safe \<or> c \<in> set safe then [c] else percent_byte c) s)"

definition quote_plus :: "string \<Rightarrow> string" where
  "quote_plus s =
     (if CHR '' '' \<notin> set s then quote [] s
      else replace_char (CHR '' '') (CHR ''+'') (quote '' '' s))"

text \<open>
  \<open>unquote_to_bytes\<close>: a \<open>%\<close> followed by two hexadecimal digits (of either case) is
  the byte they denote, any other \<open>%\<close> stays as it is.
\<close>

definition hexval :: "char \<Rightarrow> nat option" where
  "hexval c =
     (let n = (of_char c :: nat) in
      if 48 \<le> n \<and> n \<le> 57 then Some (n - 48)
      else if 65 \<le> n \<and> n \<le> 70 then Some (n - 55)
      else if 97 \<le> n \<and> n \<le> 102 then Some (n - 87)
      else None)"

fun unquote_to_bytes :: "string \<Rightarrow> string" where
  "unquote_to_bytes [] = []"
| "unquote_to_bytes (c # cs) =
     (if c = CHR ''%'' then
        (case cs of
           h1 # h2 # rest \<Rightarrow>
             (case (hexval h1, hexval h2) of
                (Some a, Some b) \<Rightarrow> char_of (16 * a + b) # unquote_to_bytes rest
              | _ \<Rightarrow> c # unquote_to_bytes cs)
         | _ \<Rightarrow> c # unquote_to_bytes cs)
      else c # unquote_to_bytes cs)"

text \<open>
  \<open>bytes.decode('utf-8', errors='replace')\<close>, as a function from bytes to the UTF-8
  form of the decoded text. The first byte of a sequence says how long it is and
  which second bytes it admits. A sequence that is cut short, by a byte that does not
  continue it or by the end of the input, becomes one U+FFFD (the bytes
  \<open>EF BF BD\<close>), and decoding goes on at the byte that cut it; a byte that cannot
  start a sequence becomes one U+FFFD.
\<close>

definition REPLACEMENT :: string where
  "REPLACEMENT = [CHR 0xEF, CHR 0xBF, CHR 0xBD]"

definition seq_len :: "char \<Rightarrow> nat" where
  \<comment> \<open>the length of the sequence that a byte starts, 0 for a byte that starts none\<close>
  "seq_len c =
     (let n = (of_char c :: nat) in
      if n < 0x80 then 1
      else if 0xC2 \<le> n \<and> n \<le> 0xDF then 2
      else if 0xE0 \<le> n \<and> n \<le> 0xEF then 3
      else if 0xF0 \<le> n \<and> n \<le> 0xF4 then 4
      else 0)"

definition continuation :: "char \<Rightarrow> bool" where
  "continuation b = (0x80 \<le> (of_char b :: nat) \<and> (of_char b :: nat) \<le> 0xBF)"

definition second_ok :: "char \<Rightarrow> char \<Rightarrow> bool" where
  \<comment> \<open>the second bytes that a first byte admits: no overlong forms, no surrogates,
      nothing above U+10FFFF\<close>
  "second_ok lead b =
     (let l = (of_char lead :: nat); n = (of_char b :: nat) in
      if l = 0xE0 then 0xA0 \<le> n \<and> n \<le> 0xBF
      else if l = 0xED then 0x80 \<le> n \<and> n \<le> 0x9F
      else if l = 0xF0 then 0x90 \<le> n \<and> n \<le> 0xBF
      else if l = 0xF4 then 0x80 \<le> n \<and> n \<le> 0x8F
      else 0x80 \<le> n \<and> n \<le> 0xBF)"

definition tail_len :: "char \<Rightarrow> string \<Rightarrow> nat" where
  \<comment> \<open>how many of the bytes after a first byte continue its sequence\<close>
  "tail_len lead cs =
     (case cs of
        [] \<Rightarrow> 0
      | b # bs \<Rightarrow>
          if second_ok lead b
          then 1 + length (takeWhile continuation (take (seq_len lead - 2) bs))
          else 0)"

function utf8_replace :: "string \<Rightarrow> string" where
  "utf8_replace [] = []"
| "utf8_replace (c # cs) =
     (if seq_len c = 0 then REPLACEMENT @ utf8_replace cs
      else if seq_len c = 1 then c # utf8_replace cs
      else if tail_len c cs = seq_len c - 1
      then c # take (tail_len c cs) cs @ utf8_replace (drop (tail_len c cs) cs)
      else REPLACEMENT @ utf8_replace (drop (tail_len c cs) cs))"
  by pat_completeness auto
termination
  by (relation "measure length") auto

declare utf8_replace.simps [simp del]

text \<open>
  A byte list is the UTF-8 form of a text exactly when decoding leaves it as it is.
\<close>

definition valid_utf8 :: "string \<Rightarrow> bool" where
  "valid_utf8 s = (utf8_replace s = s)"

text \<open>
  \<open>unquote\<close> decodes the runs of ASCII characters of its argument in this way and
  leaves the other characters alone. A character outside ASCII neither continues a
  sequence cut short before it nor is continued by a byte after it, so for the UTF-8
  form of a text that is decoding the whole. \<open>unquote_plus\<close> turns every \<open>+\<close> into a
  space first.
\<close>

definition unquote :: "string \<Rightarrow> string" where
  "unquote s = utf8_replace (unquote_to_bytes s)"

definition unquote_plus :: "string \<Rightarrow> string" where
  "unquote_plus s = unquote (replace_char (CHR ''+'') (CHR '' '') s)"

section \<open>HLS proxy helpers\<close>

text \<open>
  \<open>urllib.parse.urljoin\<close> is a library function; the functions that call it take it as
  the parameter \<open>urljoin\<close>. It returns a URL or raises: \<open>urlsplit\<close> raises
  \<open>ValueError\<close> for a host with an unmatched bracket, and none of the callers has a
  \<open>try\<close> around it.
\<close>

type_synonym urljoin = "string \<Rightarrow> string \<Rightarrow> py_exception + string"

text \<open>
  The loop of \<open>rewrite_playlist\<close>, with its two variables \<open>new_lines\<close> and \<open>seq\<close>. An
  exception of \<open>urljoin\<close> ends it.
\<close>

fun rewrite_loop ::
  "urljoin \<Rightarrow> string \<Rightarrow> string list \<Rightarrow> string list \<Rightarrow> nat \<Rightarrow> py_exception + string list" where
  "rewrite_loop urljoin original_playlist_url [] new_lines seq = Inr new_lines"
| "rewrite_loop urljoin original_playlist_url (line # lines) new_lines seq =
     (let line_stripped = strip line in
      if line_stripped = [] \<or> startswith line_stripped ''#''
      then rewrite_loop urljoin original_playlist_url lines (new_lines @ [line]) seq
      else
        (case urljoin original_playlist_url line_stripped of
           Inl e \<Rightarrow> Inl e
         | Inr abs_url \<Rightarrow>
             (let proxied = ''/segment?u='' @ quote_plus abs_url @ ''&i='' @ str_nat seq
              in rewrite_loop urljoin original_playlist_url lines (new_lines @ [proxied])
                   (seq + 1))))"

definition rewrite_playlist :: "urljoin \<Rightarrow> string \<Rightarrow> string \<Rightarrow> py_exception + string" where
  "rewrite_playlist urljoin original_playlist_url playlist_text =
     (case rewrite_loop urljoin original_playlist_url (splitlines playlist_text) [] 0 of
        Inl e \<Rightarrow> Inl e
      | Inr new_lines \<Rightarrow> Inr (str_join [NL] new_lines))"

text \<open>
  The lines that pass through unchanged, the number of segment lines before position
  \<open>i\<close>, and the line written for a segment whose absolute URL is \<open>abs_url\<close> when \<open>seq\<close>
  is \<open>k\<close>.
\<close>

definition passes_through :: "string \<Rightarrow> bool" where
  "passes_through line = (strip line = [] \<or> startswith (strip line) ''#'')"

definition segments_before :: "nat \<Rightarrow> string list \<Rightarrow> nat" where
  "segments_before i lines = length (filter (\<lambda>l. \<not> passes_through l) (take i lines))"

definition proxied_line :: "string \<Rightarrow> nat \<Rightarrow> string" where
  "proxied_line abs_url k = ''/segment?u='' @ quote_plus abs_url @ ''&i='' @ str_nat k"

text \<open>
  For evaluating the functions on concrete inputs, \<open>urljoin_std\<close> gives what \<open>urljoin\<close>
  gives when the base is an absolute URL \<open>scheme://host/path\<close> and the reference is
  either an absolute URL of that form or a relative path that does not start with a
  slash (no colon, no dot segment, no query, no fragment): the \<open>ValueError\<close> of
  \<open>urlsplit\<close> when the host of either has a bracket without its partner, the reference
  itself when it is absolute, and otherwise the base up to its last slash followed by
  the path.
  \<open>netloc_of\<close> is the host part that \<open>urlsplit\<close> cuts out of such a URL.
\<close>

definition netloc_of :: "string \<Rightarrow> string option" where
  "netloc_of u =
     (let rest = (if CHR '':'' \<in> set u then tl (dropWhile (\<lambda>c. c \<noteq> CHR '':'') u) else u)
      in if take 2 rest = ''//''
         then Some (takeWhile (\<lambda>c. c \<notin> set ''/?#'') (drop 2 rest))
         else None)"

definition invalid_ipv6 :: "string \<Rightarrow> bool" where
  "invalid_ipv6 u =
     (case netloc_of u of
        None \<Rightarrow> False
      | Some netloc \<Rightarrow>
          (CHR ''['' \<in> set netloc \<and> CHR '']'' \<notin> set netloc) \<or>
          (CHR '']'' \<in> set netloc \<and> CHR ''['' \<notin> set netloc))"

definition urljoin_std :: urljoin where
  "urljoin_std base u =
     (if base = [] then Inr u
      else if u = [] then Inr base
      else if invalid_ipv6 base \<or> invalid_ipv6 u then Inl (ValueError ''Invalid IPv6 URL'')
      else if CHR '':'' \<in> set u then Inr u
      else Inr (rev (dropWhile (\<lambda>c. c \<noteq> CHR ''/'') (rev base)) @ u))"

definition demo_playlist :: string where
  "demo_playlist = ''#EXTM3U'' @ [CHR 0x0D, NL] @ [NL] @ '' seg a.ts'' @ [NL] @ ''#EXTINF:4'' @ [NL] @ ''b.ts'' @ [NL]"

definition bracket_playlist :: string where
  "bracket_playlist = ''#EXTM3U'' @ [NL] @ ''http://[x/b.ts'' @ [NL]"

definition unmatched_playlist :: string where
  "unmatched_playlist = ''a.ts'' @ [NL] @ ''http://x]/c.ts''"

section \<open>Upstream requests\<close>

text \<open>
  What \<open>requests.get\<close> gives for a URL: it raises (origin unreachable, timeout), or it
  returns a response object. The network is a parameter of every function that
  fetches.
\<close>

text \<open>
  The fields of a \<open>requests\<close> response that the program reads: \<open>resp_url\<close> is its
  \<open>url\<close>, \<open>content\<close> the body as bytes and \<open>resp_text\<close> its \<open>text\<close>, the body decoded
  with the encoding \<open>requests\<close> chooses.
\<close>

record http_response =
  status_code :: nat
  reason :: string
  resp_url :: string
  content :: string
  resp_text :: string

type_synonym network = "string \<Rightarrow> py_exception + http_response"

definition raise_for_status :: "http_response \<Rightarrow> py_exception option" where
  \<comment> \<open>the exception \<open>Response.raise_for_status\<close> raises, if any\<close>
  "raise_for_status r =
     (if 400 \<le> status_code r \<and> status_code r < 500
      then Some (HTTPError (str_nat (status_code r) @ '' Client Error: '' @ reason r
                             @ '' for url: '' @ resp_url r))
      else if 500 \<le> status_code r \<and> status_code r < 600
      then Some (HTTPError (str_nat (status_code r) @ '' Server Error: '' @ reason r
                             @ '' for url: '' @ resp_url r))
      else None)"

text \<open>
  The server's state: the module-level dictionary \<open>_playlist_cache\<close>, and the list of
  the URLs requested upstream so far, which the source does not keep but which says
  what was fetched.
\<close>

record cache_entry =
  data :: string
  ts :: real

record server_state =
  playlist_cache :: "string \<rightharpoonup> cache_entry"
  upstream_log :: "string list"

definition CACHE_TTL :: real where
  "CACHE_TTL = 5"

definition fetch_bytes :: "network \<Rightarrow> string \<Rightarrow> server_state \<Rightarrow> (py_exception + string) \<times> server_state" where
  "fetch_bytes net u st =
     (let st' = st\<lparr>upstream_log := upstream_log st @ [u]\<rparr> in
      case net u of
        Inl e \<Rightarrow> (Inl e, st')
      | Inr r \<Rightarrow>
          (case raise_for_status r of
             Some e \<Rightarrow> (Inl e, st')
           | None \<Rightarrow> (Inr (content r), st')))"

section \<open>Flask endpoints\<close>

text \<open>
  A response as the view function makes it: \<open>headers\<close> holds the headers the view sets
  itself.
\<close>

record response =
  status :: nat
  body :: string
  mimetype :: string
  headers :: "(string \<times> string) list"

definition Response :: "string \<Rightarrow> string \<Rightarrow> response" where
  \<comment> \<open>\<open>Response(body, mimetype=m)\<close>\<close>
  "Response b m = \<lparr>status = 200, body = b, mimetype = m, headers = []\<rparr>"

definition text_status :: "string \<Rightarrow> nat \<Rightarrow> response" where
  \<comment> \<open>the response Flask makes of a returned pair \<open>(text, status)\<close>\<close>
  "text_status b n = \<lparr>status = n, body = b, mimetype = ''text/html'', headers = []\<rparr>"

definition unhandled :: "py_exception \<Rightarrow> response" where
  \<comment> \<open>the response Flask makes when the view raises: status 500; the body stands for
      the error page\<close>
  "unhandled e = \<lparr>status = 500, body = ''Internal Server Error'', mimetype = ''text/html'',
                   headers = []\<rparr>"

text \<open>
  \<open>proxy_playlist\<close> in two parts: the part before the upstream request, which answers
  from the cache or decides to fetch, and the part from the request on. Only the
  upstream request is inside the \<open>try\<close>: an exception of the rewrite leaves the view. The
  parameters are the value of \<open>request.args.get("url")\<close>, the clock reading
  \<open>time.time()\<close>, and the decoder \<open>bytes.decode('utf-8', errors='ignore')\<close>.
  Clock readings are real numbers: the difference of two readings that are less than
  a factor of two apart is exact in floating point.
\<close>

definition proxy_playlist_check :: "string option \<Rightarrow> real \<Rightarrow> server_state \<Rightarrow> response + string" where
  "proxy_playlist_check url_arg now st =
     (case url_arg of
        None \<Rightarrow> Inl (text_status ''Missing url param'' 400)
      | Some u \<Rightarrow>
          if u = [] then Inl (text_status ''Missing url param'' 400)
          else
            (case playlist_cache st u of
               Some cached \<Rightarrow>
                 if now - ts cached < CACHE_TTL
                 then Inl (Response (data cached) ''application/vnd.apple.mpegurl'')
                 else Inr u
             | None \<Rightarrow> Inr u))"

definition proxy_playlist_fetch ::
  "urljoin \<Rightarrow> (string \<Rightarrow> string) \<Rightarrow> network \<Rightarrow> string \<Rightarrow> real \<Rightarrow> server_state \<Rightarrow> response \<times> server_state" where
  "proxy_playlist_fetch urljoin decode_ignore net u now st =
     (case fetch_bytes net u st of
        (Inl e, st') \<Rightarrow> (text_status (''Failed to fetch playlist: '' @ str_exc e) 502, st')
      | (Inr pl_bytes, st') \<Rightarrow>
          (let pl_text = decode_ignore pl_bytes in
           case rewrite_playlist urljoin u pl_text of
             Inl e \<Rightarrow> (unhandled e, st')
           | Inr rewritten \<Rightarrow>
               (Response rewritten ''application/vnd.apple.mpegurl'',
                st'\<lparr>playlist_cache :=
                      (playlist_cache st')(u \<mapsto> \<lparr>data = rewritten, ts = now\<rparr>)\<rparr>)))"

definition proxy_playlist ::
  "urljoin \<Rightarrow> (string \<Rightarrow> string) \<Rightarrow> network \<Rightarrow> string option \<Rightarrow> real \<Rightarrow> server_state \<Rightarrow> response \<times> server_state" where
  "proxy_playlist urljoin decode_ignore net url_arg now st =
     (case proxy_playlist_check url_arg now st of
        Inl resp \<Rightarrow> (resp, st)
      | Inr u \<Rightarrow> proxy_playlist_fetch urljoin decode_ignore net u now st)"

definition segment :: "network \<Rightarrow> string option \<Rightarrow> server_state \<Rightarrow> response \<times> server_state" where
  "segment net u_arg st =
     (case u_arg of
        None \<Rightarrow> (text_status ''Missing u param'' 400, st)
      | Some u \<Rightarrow>
          if u = [] then (text_status ''Missing u param'' 400, st)
          else
            (case fetch_bytes net (unquote_plus u) st of
               (Inl e, st') \<Rightarrow>
                 (text_status (''Failed to fetch remote segment: '' @ str_exc e) 502, st')
             | (Inr remote_bytes, st') \<Rightarrow>
                 ((Response remote_bytes ''video/MP2T'')
                    \<lparr>headers := [(''Content-Length'', str_nat (length remote_bytes))]\<rparr>, st')))"

text \<open>
  Flask hands the view the parameters of the query string already decoded: Werkzeug
  reads the query string with \<open>parse_qsl\<close>, which turns every \<open>+\<close> of a value into a
  space and percent-decodes it. \<open>request_arg raw\<close> is that value for the text \<open>raw\<close>
  written after \<open>u=\<close> in the request line, for a text that decodes to UTF-8, and
  \<open>segment_request\<close> is the view as it runs for \<open>GET /segment?u=raw\<close>.
\<close>

definition request_arg :: "string \<Rightarrow> string" where
  "request_arg raw = unquote_plus raw"

definition segment_request :: "network \<Rightarrow> string option \<Rightarrow> server_state \<Rightarrow> response \<times> server_state" where
  "segment_request net raw_u st = segment net (map_option request_arg raw_u) st"

text \<open>
  Whether the cache holds an entry for \<open>u\<close> younger than the TTL at time \<open>now\<close>, and
  the response of \<open>segment\<close> to fetched bytes.
\<close>

definition cached_fresh :: "server_state \<Rightarrow> string \<Rightarrow> real \<Rightarrow> bool" where
  "cached_fresh st u now =
     (case playlist_cache st u of Some cached \<Rightarrow> now - ts cached < 5 | None \<Rightarrow> False)"

definition segment_ok :: "string \<Rightarrow> response" where
  "segment_ok bytes = \<lparr>status = 200, body = bytes, mimetype = ''video/MP2T'',
                         headers = [(''Content-Length'', str_nat (length bytes))]\<rparr>"

text \<open>
  Two requests to \<open>/proxy_playlist\<close> served by two threads. A thread that has not
  answered is either before its cache lookup or between the lookup and the end of its
  upstream request; a schedule says which thread runs next and what the clock reads
  when it does.
\<close>

datatype request_state = Arrived "string option" | Fetching string real | Answered response

definition advance ::
  "urljoin \<Rightarrow> (string \<Rightarrow> string) \<Rightarrow> network \<Rightarrow> real \<Rightarrow> request_state \<Rightarrow> server_state
     \<Rightarrow> request_state \<times> server_state" where
  "advance urljoin decode_ignore net now rs st =
     (case rs of
        Arrived url_arg \<Rightarrow>
          (case proxy_playlist_check url_arg now st of
             Inl resp \<Rightarrow> (Answered resp, st)
           | Inr u \<Rightarrow> (Fetching u now, st))
      | Fetching u t \<Rightarrow>
          (case proxy_playlist_fetch urljoin decode_ignore net u t st of
             (resp, st') \<Rightarrow> (Answered resp, st'))
      | Answered resp \<Rightarrow> (Answered resp, st))"

datatype thread = First | Second

fun run_threads ::
  "urljoin \<Rightarrow> (string \<Rightarrow> string) \<Rightarrow> network \<Rightarrow> (thread \<times> real) list
     \<Rightarrow> request_state \<times> request_state \<times> server_state
     \<Rightarrow> request_state \<times> request_state \<times> server_state" where
  "run_threads urljoin decode_ignore net [] cfg = cfg"
| "run_threads urljoin decode_ignore net ((First, now) # sched) (r1, r2, st) =
     (case advance urljoin decode_ignore net now r1 st of
        (r1', st') \<Rightarrow> run_threads urljoin decode_ignore net sched (r1', r2, st'))"
| "run_threads urljoin decode_ignore net ((Second, now) # sched) (r1, r2, st) =
     (case advance urljoin decode_ignore net now r2 st of
        (r2', st') \<Rightarrow> run_threads urljoin decode_ignore net sched (r1, r2', st'))"

text \<open>
  For evaluating the endpoints: an origin that serves one two-line playlist with
  status 200 at every URL, and the server state at start-up.
\<close>

definition demo_body :: string where
  "demo_body = ''#EXTM3U'' @ [NL] @ ''b.ts''"

definition demo_rewritten :: string where
  "demo_rewritten = ''#EXTM3U'' @ [NL] @ ''/segment?u=http%3A%2F%2Fh%2Fp%2Fb.ts&i=0''"

definition demo_origin :: network where
  "demo_origin u =
     Inr \<lparr>status_code = 200, reason = ''OK'', resp_url = u,
          content = demo_body, resp_text = demo_body\<rparr>"

definition bracket_origin :: network where
  "bracket_origin u =
     Inr \<lparr>status_code = 200, reason = ''OK'', resp_url = u,
          content = bracket_playlist, resp_text = bracket_playlist\<rparr>"

definition down_origin :: network where
  "down_origin u = Inl (RequestException ''Connection refused'')"

definition gone_origin :: network where
  "gone_origin u = Inr \<lparr>status_code = 404, reason = ''Not Found'', resp_url = u,
                         content = ''gone'', resp_text = ''gone''\<rparr>"

definition warm_state :: server_state where
  "warm_state = \<lparr>playlist_cache = [''http://h/p/i.m3u8'' \<mapsto> \<lparr>data = ''#EXTM3U'', ts = 98\<rparr>],
                  upstream_log = [''http://h/p/i.m3u8'']\<rparr>"

definition initial_state :: server_state where
  "initial_state = \<lparr>playlist_cache = Map.empty, upstream_log = []\<rparr>"

section \<open>Capture of the first manifest request\<close>

text \<open>
  The dictionary \<open>captured\<close> with its one key \<open>url\<close>, and with it the number of
  assignments made to that key, which the source does not keep.
\<close>

record captured =
  cap_url :: "string option"
  cap_writes :: nat

definition fresh_captured :: captured where
  \<comment> \<open>\<open>captured = {"url": None}\<close>\<close>
  "fresh_captured = \<lparr>cap_url = None, cap_writes = 0\<rparr>"

definition truthy :: "string option \<Rightarrow> bool" where
  \<comment> \<open>the truth value of \<open>None\<close> or a \<open>str\<close>\<close>
  "truthy v = (case v of None \<Rightarrow> False | Some s \<Rightarrow> s \<noteq> [])"

definition on_request :: "string \<Rightarrow> captured \<Rightarrow> captured" where
  "on_request req_url c =
     (if str_in ''.m3u8'' req_url \<and> \<not> truthy (cap_url c)
      then c\<lparr>cap_url := Some req_url, cap_writes := cap_writes c + 1\<rparr>
      else c)"

definition deliver :: "string list \<Rightarrow> captured \<Rightarrow> captured" where
  \<comment> \<open>the observer called for each request of a list, in order\<close>
  "deliver reqs c = fold on_request reqs c"

text \<open>
  What one browser session lets the observer see: the requests made while
  \<open>page.goto\<close> runs (whether it returns or raises), those made while the play control
  is looked for and clicked, those made during each \<open>wait_for_timeout(500)\<close>, and
  those still delivered while the context and the browser are closed.
  The browser is a parameter: it gives the session that the \<open>n\<close>-th launch for a page
  URL produces. Calls of Playwright outside a \<open>try\<close> are taken to return.
\<close>

record page_session =
  goto_requests :: "string list"
  click_requests :: "string list"
  wait_requests :: "string list list"
  close_requests :: "string list"

type_synonym browser = "string \<Rightarrow> nat \<Rightarrow> page_session"

fun poll :: "nat \<Rightarrow> string list list \<Rightarrow> captured \<Rightarrow> captured" where
  \<comment> \<open>\<open>for _ in range(n): if captured["url"]: break; page.wait_for_timeout(500)\<close>\<close>
  "poll 0 waits c = c"
| "poll (Suc n) waits c =
     (if truthy (cap_url c) then c
      else (case waits of
              [] \<Rightarrow> poll n [] c
            | w # ws \<Rightarrow> poll n ws (deliver w c)))"

definition run_session :: "page_session \<Rightarrow> captured" where
  \<comment> \<open>the body of the \<open>with\<close> block up to \<open>browser.close()\<close>\<close>
  "run_session s =
     deliver (close_requests s)
       (poll 30 (wait_requests s)
          (deliver (click_requests s) (deliver (goto_requests s) fresh_captured)))"

text \<open>
  \<open>capture_loop b page_url attempt k\<close> runs the attempts numbered \<open>attempt\<close> to
  \<open>attempt + k - 1\<close>. The result is paired with the number of sessions launched.
\<close>

fun capture_loop :: "browser \<Rightarrow> string \<Rightarrow> nat \<Rightarrow> nat \<Rightarrow> string option \<times> nat" where
  "capture_loop b page_url attempt 0 = (None, attempt - 1)"
| "capture_loop b page_url attempt (Suc k) =
     (let c = run_session (b page_url attempt) in
      if truthy (cap_url c) then (cap_url c, attempt)
      else capture_loop b page_url (attempt + 1) k)"

definition capture_first_m3u8 :: "browser \<Rightarrow> string \<Rightarrow> nat \<Rightarrow> string option \<times> nat" where
  "capture_first_m3u8 b page_url retries = capture_loop b page_url 1 retries"

definition session_requests :: "page_session \<Rightarrow> string list" where
  \<comment> \<open>every request a session makes, in order\<close>
  "session_requests s =
     goto_requests s @ click_requests s @ concat (wait_requests s) @ close_requests s"

text \<open>
  The relation between the slot and the number of assignments that every call of the
  observer keeps.
\<close>

definition slot_ok :: "captured \<Rightarrow> bool" where
  "slot_ok c = (if truthy (cap_url c) then cap_writes c = 1 else cap_writes c = 0)"

text \<open>
  For evaluating the capture: the requests of a page that loads a script and then two
  manifests; a browser whose second session requests manifests during its second
  wait; and a browser whose sessions never request one.
\<close>

definition demo_requests :: "string list" where
  "demo_requests = [''http://h/player.js'', ''http://h/a.m3u8'', ''http://h/b.m3u8'']"

definition demo_browser :: browser where
  "demo_browser page_url n =
     \<lparr>goto_requests = [page_url], click_requests = [''http://h/player.js''],
      wait_requests = (if n = 2 then [[], [''http://h/a.m3u8'', ''http://h/b.m3u8'']] else []),
      close_requests = []\<rparr>"

definition dead_browser :: browser where
  "dead_browser page_url n =
     \<lparr>goto_requests = [page_url], click_requests = [], wait_requests = [],
      close_requests = []\<rparr>"

section \<open>Variant selection\<close>
























section \<open>Title matching\<close>

text \<open>
  A search result of the catalog is a JSON object, here the list of its string-valued
  keys, each once, with their values. \<open>search_tmdb\<close> and the scorer are parameters: \<open>sc query choice\<close>
  is the score that \<open>rapidfuzz\<close> computes for a query and a choice with
  \<open>fuzz.token_sort_ratio\<close>, a similarity from 0 to 100.
\<close>

type_synonym json_object = "(string \<times> string) list"

type_synonym scorer = "string \<Rightarrow> string \<Rightarrow> real"

definition getitem :: "json_object \<Rightarrow> string \<Rightarrow> py_exception + string" where
  \<comment> \<open>\<open>r[k]\<close>\<close>
  "getitem r k = (case map_of r k of None \<Rightarrow> Inl (KeyError k) | Some v \<Rightarrow> Inr v)"

definition display_name :: "json_object \<Rightarrow> py_exception + string" where
  \<comment> \<open>\<open>r["title"] if r["media_type"] == "movie" else r["name"]\<close>\<close>
  "display_name r =
     (case getitem r ''media_type'' of
        Inl e \<Rightarrow> Inl e
      | Inr media_type \<Rightarrow> if media_type = ''movie'' then getitem r ''title'' else getitem r ''name'')"

fun names_of :: "json_object list \<Rightarrow> py_exception + string list" where
  \<comment> \<open>the list comprehension over \<open>results\<close>; the first exception ends it\<close>
  "names_of [] = Inr []"
| "names_of (r # rs) =
     (case display_name r of
        Inl e \<Rightarrow> Inl e
      | Inr n \<Rightarrow> (case names_of rs of Inl e \<Rightarrow> Inl e | Inr ns \<Rightarrow> Inr (n # ns)))"

text \<open>
  \<open>process.extractOne(query, choices, scorer=scorer)\<close> returns the choice with the
  highest score, with its score and index, the first one among equals, and \<open>None\<close>
  for no choice. The loop keeps the best triple so far.
\<close>

fun extract_loop ::
  "scorer \<Rightarrow> string \<Rightarrow> string list \<Rightarrow> nat \<Rightarrow> (string \<times> real \<times> nat) option
     \<Rightarrow> (string \<times> real \<times> nat) option" where
  "extract_loop sc query [] idx result = result"
| "extract_loop sc query (choice # choices) idx result =
     (let score = sc query choice in
      if (case result of None \<Rightarrow> True | Some (_, best, _) \<Rightarrow> best < score)
      then extract_loop sc query choices (idx + 1) (Some (choice, score, idx))
      else extract_loop sc query choices (idx + 1) result)"

definition extractOne :: "scorer \<Rightarrow> string \<Rightarrow> string list \<Rightarrow> (string \<times> real \<times> nat) option" where
  "extractOne sc query choices = extract_loop sc query choices 0 None"

definition get_best_match ::
  "scorer \<Rightarrow> string \<Rightarrow> json_object list \<Rightarrow> py_exception + json_object option" where
  "get_best_match sc title results =
     (case names_of results of
        Inl e \<Rightarrow> Inl e
      | Inr names \<Rightarrow>
          if names = [] then Inr None
          else
            (case extractOne sc title names of
               None \<Rightarrow> Inl (TypeError ''cannot unpack non-iterable NoneType object'')
             | Some (best_name, score, idx) \<Rightarrow>
                 if score \<noteq> 0 \<and> 60 < score
                 then (if idx < length results then Inr (Some (results ! idx))
                       else Inl (IndexError ''list index out of range''))
                 else Inr None))"

text \<open>
  What the loop keeps: the triple \<open>t\<close> is the best among the first \<open>n\<close> choices, and
  the first of the best.
\<close>

definition best_of :: "scorer \<Rightarrow> string \<Rightarrow> string list \<Rightarrow> nat \<Rightarrow> (string \<times> real \<times> nat) \<Rightarrow> bool" where
  "best_of sc query choices n t =
     (case t of (choice, score, idx) \<Rightarrow>
        idx < n \<and> choices ! idx = choice \<and> score = sc query choice \<and>
        (\<forall>j<n. sc query (choices ! j) \<le> score) \<and>
        (\<forall>j<idx. sc query (choices ! j) < score))"








definition exact_scorer :: scorer where
  "exact_scorer query choice = (if query = choice then 100 else 0)"

definition demo_results :: "json_object list" where
  "demo_results =
     [[(''media_type'', ''movie''), (''title'', ''Dune''), (''release_date'', ''1984-12-14'')],
      [(''media_type'', ''tv''), (''name'', ''Dune: Prophecy'')],
      [(''media_type'', ''movie''), (''title'', ''Dune''), (''release_date'', ''2021-09-15'')]]"


section \<open>Properties\<close>

subsection \<open>Percent-encoding round trip\<close>

lemma lt16_cases:
  "(n::nat) < 16 \<Longrightarrow> n \<in> {0, 1, 2, 3, 4, 5, 6, 7, 8, 9, 10, 11, 12, 13, 14, 15}"
  by simp arith

lemma hexval_hexdigit: "n < 16 \<Longrightarrow> hexval (hexdigit n) = Some n"
  by (drule lt16_cases) (auto simp: hexval_def hexdigit_def)

lemma hexdigit_not_plus: "n < 16 \<Longrightarrow> hexdigit n \<noteq> CHR ''+''"
  by (drule lt16_cases) (auto simp: hexdigit_def)

lemma of_char_nibbles: "(of_char c :: nat) div 16 < 16" "(of_char c :: nat) mod 16 < 16"
proof -
  have "(of_char c :: nat) < 256" by (rule nat_of_char_less_256)
  then show "(of_char c :: nat) div 16 < 16" by arith
  show "(of_char c :: nat) mod 16 < 16" by simp
qed

lemma unquote_percent_byte: "unquote_to_bytes (percent_byte c @ rest) = c # unquote_to_bytes rest"
proof -
  let ?n = "of_char c :: nat"
  have h: "?n div 16 < 16" "?n mod 16 < 16" by (rule of_char_nibbles)+
  have "char_of (16 * (?n div 16) + ?n mod 16) = c" by simp
  then show ?thesis
    by (simp add: percent_byte_def hexval_hexdigit h)
qed

lemma unquote_quote: "CHR ''%'' \<notin> set safe \<Longrightarrow> unquote_to_bytes (quote safe s) = s"
proof (induction s)
  case Nil
  then show ?case by (simp add: quote_def)
next
  case (Cons c s)
  have nsafe: "CHR ''%'' \<notin> set always_safe" by (simp add: always_safe_def)
  have q: "quote safe (c # s) = (if c \<in> set always_safe \<or> c \<in> set safe then [c] else percent_byte c) @ quote safe s"
    by (simp add: quote_def)
  show ?case
  proof (cases "c \<in> set always_safe \<or> c \<in> set safe")
    case True
    with nsafe Cons.prems have "c \<noteq> CHR ''%''" by auto
    with True Cons show ?thesis by (simp add: q)
  next
    case False
    with Cons show ?thesis by (simp add: q unquote_percent_byte)
  qed
qed

lemma plus_not_in_quote: "CHR ''+'' \<notin> set safe \<Longrightarrow> CHR ''+'' \<notin> set (quote safe s)"
proof (induction s)
  case Nil
  then show ?case by (simp add: quote_def)
next
  case (Cons c s)
  have nsafe: "CHR ''+'' \<notin> set always_safe" by (simp add: always_safe_def)
  have h: "(of_char c :: nat) div 16 < 16" "(of_char c :: nat) mod 16 < 16"
    by (rule of_char_nibbles)+
  have "CHR ''+'' \<notin> set (percent_byte c)"
    using hexdigit_not_plus[OF h(1)] hexdigit_not_plus[OF h(2)]
    by (auto simp: percent_byte_def)
  with Cons nsafe show ?case by (auto simp: quote_def)
qed

lemma replace_char_inverse: "b \<notin> set s \<Longrightarrow> replace_char b a (replace_char a b s) = s"
  by (induction s) (auto simp: replace_char_def)

lemma replace_char_absent: "a \<notin> set s \<Longrightarrow> replace_char a b s = s"
  by (induction s) (auto simp: replace_char_def)

lemma unquote_bytes_quote_plus:
  "unquote_to_bytes (replace_char (CHR ''+'') (CHR '' '') (quote_plus s)) = s"
proof (cases "CHR '' '' \<in> set s")
  case True
  have "CHR ''+'' \<notin> set (quote '' '' s)" by (rule plus_not_in_quote) simp
  then have "replace_char (CHR ''+'') (CHR '' '') (replace_char (CHR '' '') (CHR ''+'') (quote '' '' s)) = quote '' '' s"
    by (rule replace_char_inverse)
  with True show ?thesis by (simp add: quote_plus_def unquote_quote)
next
  case False
  have "CHR ''+'' \<notin> set (quote [] s)" by (rule plus_not_in_quote) simp
  then have "replace_char (CHR ''+'') (CHR '' '') (quote [] s) = quote [] s"
    by (rule replace_char_absent)
  with False show ?thesis by (simp add: quote_plus_def unquote_quote)
qed

lemma unquote_plus_quote_plus: "valid_utf8 s \<Longrightarrow> unquote_plus (quote_plus s) = s"
  by (simp add: unquote_plus_def unquote_def unquote_bytes_quote_plus valid_utf8_def)

lemma unquote_plus_quote_plus_any: "unquote_plus (quote_plus s) = utf8_replace s"
  by (simp add: unquote_plus_def unquote_def unquote_bytes_quote_plus)

subsection \<open>Playlist rewrite\<close>

lemma rewrite_loop_acc:
  "rewrite_loop uj U lines acc seq =
     (case rewrite_loop uj U lines [] seq of Inl e \<Rightarrow> Inl e | Inr r \<Rightarrow> Inr (acc @ r))"
proof (induction lines arbitrary: acc seq)
  case Nil
  show ?case by simp
next
  case (Cons line lines)
  show ?case
  proof (cases "passes_through line")
    case True
    then show ?thesis
      using Cons.IH [of "acc @ [line]" seq] Cons.IH [of "[line]" seq]
      by (simp add: passes_through_def split: sum.splits)
  next
    case False
    show ?thesis
    proof (cases "uj U (strip line)")
      case (Inl e)
      with False show ?thesis by (simp add: passes_through_def)
    next
      case (Inr a)
      with False show ?thesis
        using Cons.IH [of "acc @ [proxied_line a seq]" "Suc seq"]
              Cons.IH [of "[proxied_line a seq]" "Suc seq"]
        by (simp add: passes_through_def proxied_line_def split: sum.splits)
    qed
  qed
qed

lemma rewrite_loop_pass:
  "passes_through line \<Longrightarrow>
   rewrite_loop uj U (line # lines) [] seq =
     (case rewrite_loop uj U lines [] seq of Inl e \<Rightarrow> Inl e | Inr r \<Rightarrow> Inr (line # r))"
  using rewrite_loop_acc [of uj U lines "[line]" seq]
  by (simp add: passes_through_def split: sum.splits)

lemma rewrite_loop_raise:
  "\<not> passes_through line \<Longrightarrow> uj U (strip line) = Inl e \<Longrightarrow>
   rewrite_loop uj U (line # lines) [] seq = Inl e"
  by (simp add: passes_through_def)

lemma rewrite_loop_segment:
  "\<not> passes_through line \<Longrightarrow> uj U (strip line) = Inr a \<Longrightarrow>
   rewrite_loop uj U (line # lines) [] seq =
     (case rewrite_loop uj U lines [] (Suc seq) of
        Inl e \<Rightarrow> Inl e | Inr r \<Rightarrow> Inr (proxied_line a seq # r))"
  using rewrite_loop_acc [of uj U lines "[proxied_line a seq]" "Suc seq"]
  by (simp add: passes_through_def proxied_line_def split: sum.splits)

declare rewrite_loop.simps(2) [simp del]

lemma segments_before_0: "segments_before 0 lines = 0"
  by (simp add: segments_before_def)

lemma segments_before_Suc:
  "segments_before (Suc i) (line # lines) =
     (if passes_through line then 0 else 1) + segments_before i lines"
  by (simp add: segments_before_def)

lemma rewrite_loop_returns:
  assumes "\<forall>line\<in>set lines. \<not> passes_through line \<longrightarrow> (\<exists>a. uj U (strip line) = Inr a)"
  shows "\<exists>out. rewrite_loop uj U lines [] seq = Inr out \<and> length out = length lines \<and>
           (\<forall>i<length lines.
              if passes_through (lines ! i) then out ! i = lines ! i
              else \<exists>a. uj U (strip (lines ! i)) = Inr a \<and>
                       out ! i = proxied_line a (seq + segments_before i lines))"
  using assms
proof (induction lines arbitrary: seq)
  case Nil
  show ?case by simp
next
  case (Cons line lines)
  have rest: "\<forall>l\<in>set lines. \<not> passes_through l \<longrightarrow> (\<exists>a. uj U (strip l) = Inr a)"
    using Cons.prems by simp
  show ?case
  proof (cases "passes_through line")
    case True
    from Cons.IH [of seq] rest obtain out where
      out: "rewrite_loop uj U lines [] seq = Inr out" "length out = length lines"
      and nth: "\<forall>i<length lines.
              if passes_through (lines ! i) then out ! i = lines ! i
              else \<exists>a. uj U (strip (lines ! i)) = Inr a \<and>
                       out ! i = proxied_line a (seq + segments_before i lines)"
      by blast
    have "rewrite_loop uj U (line # lines) [] seq = Inr (line # out)"
      using True out by (simp add: rewrite_loop_pass)
    moreover have "length (line # out) = length (line # lines)" using out by simp
    moreover have "\<forall>i<length (line # lines).
              if passes_through ((line # lines) ! i) then (line # out) ! i = (line # lines) ! i
              else \<exists>a. uj U (strip ((line # lines) ! i)) = Inr a \<and>
                       (line # out) ! i = proxied_line a (seq + segments_before i (line # lines))"
    proof (intro allI impI)
      fix i assume i: "i < length (line # lines)"
      show "if passes_through ((line # lines) ! i) then (line # out) ! i = (line # lines) ! i
              else \<exists>a. uj U (strip ((line # lines) ! i)) = Inr a \<and>
                       (line # out) ! i = proxied_line a (seq + segments_before i (line # lines))"
      proof (cases i)
        case 0
        with True show ?thesis by simp
      next
        case (Suc j)
        with i have j: "j < length lines" by simp
        from nth [rule_format, OF j] show ?thesis
          using Suc True by (auto simp: segments_before_Suc)
      qed
    qed
    ultimately show ?thesis by blast
  next
    case False
    with Cons.prems obtain a where a: "uj U (strip line) = Inr a" by auto
    from Cons.IH [of "Suc seq"] rest obtain out where
      out: "rewrite_loop uj U lines [] (Suc seq) = Inr out" "length out = length lines"
      and nth: "\<forall>i<length lines.
              if passes_through (lines ! i) then out ! i = lines ! i
              else \<exists>a. uj U (strip (lines ! i)) = Inr a \<and>
                       out ! i = proxied_line a (Suc seq + segments_before i lines)"
      by blast
    have "rewrite_loop uj U (line # lines) [] seq = Inr (proxied_line a seq # out)"
      using False a out by (simp add: rewrite_loop_segment)
    moreover have "length (proxied_line a seq # out) = length (line # lines)" using out by simp
    moreover have "\<forall>i<length (line # lines).
              if passes_through ((line # lines) ! i)
              then (proxied_line a seq # out) ! i = (line # lines) ! i
              else \<exists>b. uj U (strip ((line # lines) ! i)) = Inr b \<and>
                       (proxied_line a seq # out) ! i =
                         proxied_line b (seq + segments_before i (line # lines))"
    proof (intro allI impI)
      fix i assume i: "i < length (line # lines)"
      show "if passes_through ((line # lines) ! i)
              then (proxied_line a seq # out) ! i = (line # lines) ! i
              else \<exists>b. uj U (strip ((line # lines) ! i)) = Inr b \<and>
                       (proxied_line a seq # out) ! i =
                         proxied_line b (seq + segments_before i (line # lines))"
      proof (cases i)
        case 0
        with False a show ?thesis by (simp add: segments_before_0)
      next
        case (Suc j)
        with i have j: "j < length lines" by simp
        from nth [rule_format, OF j] show ?thesis
          using Suc False by (auto simp: segments_before_Suc)
      qed
    qed
    ultimately show ?thesis by blast
  qed
qed

lemma rewrite_loop_raises:
  assumes "i < length lines" and "\<not> passes_through (lines ! i)"
    and "uj U (strip (lines ! i)) = Inl e"
    and "\<forall>j<i. \<not> passes_through (lines ! j) \<longrightarrow> (\<exists>a. uj U (strip (lines ! j)) = Inr a)"
  shows "rewrite_loop uj U lines [] seq = Inl e"
  using assms
proof (induction lines arbitrary: i seq)
  case Nil
  then show ?case by simp
next
  case (Cons line lines)
  show ?case
  proof (cases i)
    case 0
    with Cons.prems show ?thesis by (simp add: rewrite_loop_raise)
  next
    case (Suc k)
    with Cons.prems have k: "k < length lines" "\<not> passes_through (lines ! k)"
      "uj U (strip (lines ! k)) = Inl e"
      by simp_all
    have before: "\<forall>j<k. \<not> passes_through (lines ! j) \<longrightarrow> (\<exists>a. uj U (strip (lines ! j)) = Inr a)"
    proof (intro allI impI)
      fix j assume "j < k" "\<not> passes_through (lines ! j)"
      with Cons.prems(4) Suc show "\<exists>a. uj U (strip (lines ! j)) = Inr a"
        by (auto dest!: spec [of _ "Suc j"])
    qed
    have rest: "\<And>s. rewrite_loop uj U lines [] s = Inl e"
      using Cons.IH [OF k before] .
    show ?thesis
    proof (cases "passes_through line")
      case True
      then show ?thesis by (simp add: rewrite_loop_pass rest)
    next
      case False
      with Cons.prems(4) Suc obtain a where "uj U (strip line) = Inr a"
        by (auto dest!: spec [of _ 0])
      with False show ?thesis by (simp add: rewrite_loop_segment rest)
    qed
  qed
qed

text \<open>
  Claim C1, amended. For every manifest URL \<open>U\<close> and playlist text: when \<open>urljoin\<close>
  returns for every line that is neither blank nor a comment, and what it returns is a
  Python string and so has a UTF-8 encoding, the rewrite returns the lines joined by
  newlines, as many as the text has. A blank line and a line whose stripped form starts
  with \<open>#\<close> is unchanged. Every other line is \<open>/segment?u=E&i=k\<close>, where decoding \<open>E\<close>
  with \<open>unquote_plus\<close> gives what \<open>urljoin\<close> returns for \<open>U\<close> and the stripped line, and
  \<open>k\<close> is the number of such lines before it. When \<open>urljoin\<close> raises for such a line,
  having returned for the ones before it, the rewrite raises that exception and
  returns no text.
\<close>

theorem rewrite_playlist_lines:
  "((\<forall>line\<in>set (splitlines playlist_text).
       \<not> passes_through line \<longrightarrow> (\<exists>a. urljoin U (strip line) = Inr a \<and> valid_utf8 a)) \<longrightarrow>
    (\<exists>out. rewrite_playlist urljoin U playlist_text = Inr (str_join [NL] out) \<and>
         length out = length (splitlines playlist_text) \<and>
         (\<forall>i<length (splitlines playlist_text).
            if passes_through (splitlines playlist_text ! i)
            then out ! i = splitlines playlist_text ! i
            else \<exists>E a. out ! i = ''/segment?u='' @ E @ ''&i=''
                               @ str_nat (segments_before i (splitlines playlist_text)) \<and>
                       urljoin U (strip (splitlines playlist_text ! i)) = Inr a \<and>
                       unquote_plus E = a))) \<and>
   (\<forall>i e. i < length (splitlines playlist_text) \<and>
          \<not> passes_through (splitlines playlist_text ! i) \<and>
          urljoin U (strip (splitlines playlist_text ! i)) = Inl e \<and>
          (\<forall>j<i. \<not> passes_through (splitlines playlist_text ! j) \<longrightarrow>
                 (\<exists>a. urljoin U (strip (splitlines playlist_text ! j)) = Inr a)) \<longrightarrow>
          rewrite_playlist urljoin U playlist_text = Inl e)"
proof (intro conjI impI allI)
  let ?lines = "splitlines playlist_text"
  assume all: "\<forall>line\<in>set ?lines.
       \<not> passes_through line \<longrightarrow> (\<exists>a. urljoin U (strip line) = Inr a \<and> valid_utf8 a)"
  then have "\<forall>line\<in>set ?lines. \<not> passes_through line \<longrightarrow> (\<exists>a. urljoin U (strip line) = Inr a)"
    by blast
  from rewrite_loop_returns [where uj = urljoin and U = U and lines = ?lines and seq = 0] this
  obtain out where
    out: "rewrite_loop urljoin U ?lines [] 0 = Inr out" and len: "length out = length ?lines"
    and nth: "\<forall>i<length ?lines.
              if passes_through (?lines ! i) then out ! i = ?lines ! i
              else \<exists>a. urljoin U (strip (?lines ! i)) = Inr a \<and>
                       out ! i = proxied_line a (0 + segments_before i ?lines)"
    by blast
  have "rewrite_playlist urljoin U playlist_text = Inr (str_join [NL] out)"
    using out by (simp add: rewrite_playlist_def)
  moreover have "\<forall>i<length ?lines.
            if passes_through (?lines ! i) then out ! i = ?lines ! i
            else \<exists>E a. out ! i = ''/segment?u='' @ E @ ''&i='' @ str_nat (segments_before i ?lines) \<and>
                       urljoin U (strip (?lines ! i)) = Inr a \<and> unquote_plus E = a"
  proof (intro allI impI)
    fix i assume i: "i < length ?lines"
    show "if passes_through (?lines ! i) then out ! i = ?lines ! i
            else \<exists>E a. out ! i = ''/segment?u='' @ E @ ''&i='' @ str_nat (segments_before i ?lines) \<and>
                       urljoin U (strip (?lines ! i)) = Inr a \<and> unquote_plus E = a"
    proof (cases "passes_through (?lines ! i)")
      case True
      with nth [rule_format, OF i] show ?thesis by simp
    next
      case False
      with nth [rule_format, OF i] obtain a where a: "urljoin U (strip (?lines ! i)) = Inr a"
        and o: "out ! i = proxied_line a (segments_before i ?lines)"
        by auto
      from i have "?lines ! i \<in> set ?lines" by simp
      with all False a have "valid_utf8 a" by fastforce
      then have "unquote_plus (quote_plus a) = a" by (rule unquote_plus_quote_plus)
      moreover have "out ! i = ''/segment?u='' @ quote_plus a @ ''&i=''
                       @ str_nat (segments_before i ?lines)"
        using o by (simp add: proxied_line_def)
      ultimately show ?thesis using False a by auto
    qed
  qed
  ultimately show "\<exists>out. rewrite_playlist urljoin U playlist_text = Inr (str_join [NL] out) \<and>
         length out = length ?lines \<and>
         (\<forall>i<length ?lines.
            if passes_through (?lines ! i) then out ! i = ?lines ! i
            else \<exists>E a. out ! i = ''/segment?u='' @ E @ ''&i='' @ str_nat (segments_before i ?lines) \<and>
                       urljoin U (strip (?lines ! i)) = Inr a \<and> unquote_plus E = a)"
    using len by blast
next
  fix i e
  let ?lines = "splitlines playlist_text"
  assume "i < length ?lines \<and> \<not> passes_through (?lines ! i) \<and>
          urljoin U (strip (?lines ! i)) = Inl e \<and>
          (\<forall>j<i. \<not> passes_through (?lines ! j) \<longrightarrow> (\<exists>a. urljoin U (strip (?lines ! j)) = Inr a))"
  then have "rewrite_loop urljoin U ?lines [] 0 = Inl e"
    using rewrite_loop_raises [of i ?lines urljoin U e 0] by blast
  then show "rewrite_playlist urljoin U playlist_text = Inl e"
    by (simp add: rewrite_playlist_def)
qed

text \<open>
  Claim C1 as stated fails. The playlist has the line \<open>http://[x/b.ts\<close>, which is
  neither blank nor a comment. \<open>urljoin\<close> raises \<open>ValueError\<close> for it, since its host
  opens a bracket that it does not close, and the rewrite raises with it: the line is
  not replaced, and no text is returned.
\<close>

theorem rewrite_playlist_raises_counterexample:
  "\<not> passes_through ''http://[x/b.ts'' \<and>
   rewrite_playlist urljoin_std ''http://h/p/i.m3u8'' bracket_playlist
     = Inl (ValueError ''Invalid IPv6 URL'')"
  by code_simp

lemma demo_lines: "splitlines demo_playlist = [''#EXTM3U'', [], '' seg a.ts'', ''#EXTINF:4'', ''b.ts'']"
  by code_simp

lemma demo_pass: "passes_through ''#EXTM3U''" "passes_through []" "\<not> passes_through '' seg a.ts''"
  "passes_through ''#EXTINF:4''"  "\<not> passes_through ''b.ts''"
  by code_simp+

lemma demo_join:
  "urljoin_std ''http://h/p/i.m3u8'' (strip '' seg a.ts'') = Inr ''http://h/p/seg a.ts''"
  "urljoin_std ''http://h/p/i.m3u8'' (strip ''b.ts'') = Inr ''http://h/p/b.ts''"
  by code_simp+

lemma demo_valid: "valid_utf8 ''http://h/p/seg a.ts''" "valid_utf8 ''http://h/p/b.ts''"
  by code_simp+

lemma demo_segs: "segments_before 4 [''#EXTM3U'', [], '' seg a.ts'', ''#EXTINF:4'', ''b.ts''] = 1"
  by (simp add: segments_before_def demo_pass)

lemma str_nat_1: "str_nat (Suc 0) = ''1''"
  by code_simp

lemma unmatched_lines: "splitlines unmatched_playlist = [''a.ts'', ''http://x]/c.ts'']"
  by code_simp

lemma unmatched_pass: "\<not> passes_through ''a.ts''" "\<not> passes_through ''http://x]/c.ts''"
  by code_simp+

lemma unmatched_join:
  "urljoin_std ''http://h/p/i.m3u8'' (strip ''a.ts'') = Inr ''http://h/p/a.ts''"
  "urljoin_std ''http://h/p/i.m3u8'' (strip ''http://x]/c.ts'') = Inl (ValueError ''Invalid IPv6 URL'')"
  by code_simp+

theorem rewrite_playlist_lines_witness:
  "(\<exists>out E. rewrite_playlist urljoin_std ''http://h/p/i.m3u8'' demo_playlist = Inr (str_join [NL] out) \<and>
      length out = 5 \<and> out ! 3 = ''#EXTINF:4'' \<and>
      out ! 4 = ''/segment?u='' @ E @ ''&i=1'' \<and> unquote_plus E = ''http://h/p/b.ts'') \<and>
   rewrite_playlist urljoin_std ''http://h/p/i.m3u8'' unmatched_playlist
     = Inl (ValueError ''Invalid IPv6 URL'')"
proof
  let ?U = "''http://h/p/i.m3u8''"
  let ?lines = "splitlines demo_playlist"
  note main = rewrite_playlist_lines [of demo_playlist urljoin_std ?U, THEN conjunct1]
  have "\<forall>line\<in>set ?lines.
       \<not> passes_through line \<longrightarrow> (\<exists>a. urljoin_std ?U (strip line) = Inr a \<and> valid_utf8 a)"
    unfolding demo_lines by (simp add: demo_pass demo_join demo_valid)
  with main obtain out where out: "rewrite_playlist urljoin_std ?U demo_playlist = Inr (str_join [NL] out)"
    and len: "length out = length ?lines"
    and all: "\<forall>i<length ?lines.
            if passes_through (?lines ! i) then out ! i = ?lines ! i
            else \<exists>E a. out ! i = ''/segment?u='' @ E @ ''&i='' @ str_nat (segments_before i ?lines) \<and>
                       urljoin_std ?U (strip (?lines ! i)) = Inr a \<and> unquote_plus E = a"
    by blast
  have three: "out ! 3 = ''#EXTINF:4''"
    using all [unfolded demo_lines, rule_format, of 3] by (simp add: demo_pass)
  obtain E where four: "out ! 4 = ''/segment?u='' @ E @ ''&i=1''"
     "unquote_plus E = ''http://h/p/b.ts''"
    using all [unfolded demo_lines, rule_format, of 4]
    by (auto simp: demo_pass demo_segs demo_join str_nat_1)
  have five: "length out = 5"
    using len by (simp add: demo_lines)
  show "\<exists>out E. rewrite_playlist urljoin_std ?U demo_playlist = Inr (str_join [NL] out) \<and>
      length out = 5 \<and> out ! 3 = ''#EXTINF:4'' \<and>
      out ! 4 = ''/segment?u='' @ E @ ''&i=1'' \<and> unquote_plus E = ''http://h/p/b.ts''"
    using out five three four by blast
next
  let ?U = "''http://h/p/i.m3u8''"
  let ?lines = "splitlines unmatched_playlist"
  note main = rewrite_playlist_lines [of unmatched_playlist urljoin_std ?U, THEN conjunct2,
                                     rule_format, of 1 "ValueError ''Invalid IPv6 URL''"]
  have "1 < length ?lines \<and> \<not> passes_through (?lines ! 1) \<and>
        urljoin_std ?U (strip (?lines ! 1)) = Inl (ValueError ''Invalid IPv6 URL'') \<and>
        (\<forall>j<1. \<not> passes_through (?lines ! j) \<longrightarrow> (\<exists>a. urljoin_std ?U (strip (?lines ! j)) = Inr a))"
    unfolding unmatched_lines by (simp add: unmatched_pass unmatched_join)
  then show "rewrite_playlist urljoin_std ?U unmatched_playlist = Inl (ValueError ''Invalid IPv6 URL'')"
    by (rule main)
qed

subsection \<open>Upstream requests and the playlist cache\<close>

lemma fetch_bytes_log: "upstream_log (snd (fetch_bytes net u st)) = upstream_log st @ [u]"
  by (simp add: fetch_bytes_def Let_def split: sum.splits option.splits)

lemma fetch_bytes_cache: "playlist_cache (snd (fetch_bytes net u st)) = playlist_cache st"
  by (simp add: fetch_bytes_def Let_def split: sum.splits option.splits)

lemma fetch_bytes_state: "snd (fetch_bytes net u st) = st\<lparr>upstream_log := upstream_log st @ [u]\<rparr>"
  by (simp add: fetch_bytes_def Let_def split: sum.splits option.splits)

lemma fetch_bytes_ok:
  "net u = Inr r \<Longrightarrow> raise_for_status r = None \<Longrightarrow>
   fetch_bytes net u st = (Inr (content r), st\<lparr>upstream_log := upstream_log st @ [u]\<rparr>)"
  by (simp add: fetch_bytes_def Let_def)

lemma fetch_bytes_raises:
  "net u = Inl e \<Longrightarrow> fetch_bytes net u st = (Inl e, st\<lparr>upstream_log := upstream_log st @ [u]\<rparr>)"
  by (simp add: fetch_bytes_def Let_def)

lemma fetch_bytes_http_error:
  "net u = Inr r \<Longrightarrow> 400 \<le> status_code r \<Longrightarrow> status_code r < 600 \<Longrightarrow>
   \<exists>e. fetch_bytes net u st = (Inl e, st\<lparr>upstream_log := upstream_log st @ [u]\<rparr>)"
  by (auto simp: fetch_bytes_def Let_def raise_for_status_def)

lemma raise_for_status_None:
  "raise_for_status r = None \<longleftrightarrow> \<not> (400 \<le> status_code r \<and> status_code r < 600)"
  by (auto simp: raise_for_status_def)

lemma check_fresh:
  "U \<noteq> [] \<Longrightarrow> playlist_cache st U = Some e \<Longrightarrow> now - ts e < 5 \<Longrightarrow>
   proxy_playlist_check (Some U) now st = Inl (Response (data e) ''application/vnd.apple.mpegurl'')"
  by (simp add: proxy_playlist_check_def CACHE_TTL_def)

lemma check_stale:
  "U \<noteq> [] \<Longrightarrow> \<not> cached_fresh st U now \<Longrightarrow> proxy_playlist_check (Some U) now st = Inr U"
  by (auto simp: proxy_playlist_check_def CACHE_TTL_def cached_fresh_def split: option.splits)

lemma fetch_ok:
  "net U = Inr r \<Longrightarrow> raise_for_status r = None \<Longrightarrow>
   rewrite_playlist uj U (dec (content r)) = Inr rewritten \<Longrightarrow>
   proxy_playlist_fetch uj dec net U now st =
     (Response rewritten ''application/vnd.apple.mpegurl'',
      \<lparr>playlist_cache = (playlist_cache st)(U \<mapsto> \<lparr>data = rewritten, ts = now\<rparr>),
       upstream_log = upstream_log st @ [U]\<rparr>)"
  by (simp add: proxy_playlist_fetch_def fetch_bytes_ok Let_def)

lemma fetch_rewrite_raises:
  "net U = Inr r \<Longrightarrow> raise_for_status r = None \<Longrightarrow>
   rewrite_playlist uj U (dec (content r)) = Inl e \<Longrightarrow>
   proxy_playlist_fetch uj dec net U now st =
     (unhandled e, st\<lparr>upstream_log := upstream_log st @ [U]\<rparr>)"
  by (simp add: proxy_playlist_fetch_def fetch_bytes_ok Let_def)

lemma fetch_failed:
  "fst (fetch_bytes net U st) = Inl e \<Longrightarrow>
   proxy_playlist_fetch uj dec net U now st =
     (text_status (''Failed to fetch playlist: '' @ str_exc e) 502,
      st\<lparr>upstream_log := upstream_log st @ [U]\<rparr>)"
  using fetch_bytes_state [of net U st]
  by (cases "fetch_bytes net U st") (simp add: proxy_playlist_fetch_def)

lemma demo_rewrite:
  "rewrite_playlist urljoin_std ''http://h/p/i.m3u8'' demo_body = Inr demo_rewritten"
  by code_simp

lemma bracket_rewrite:
  "rewrite_playlist urljoin_std ''http://h/p/i.m3u8'' bracket_playlist
     = Inl (ValueError ''Invalid IPv6 URL'')"
  by code_simp

text \<open>
  Claim C2 as stated fails. The cache is empty and the origin answers the request
  with status 200 and a playlist whose segment line is \<open>http://[x/b.ts\<close>. The manifest
  is fetched, the rewrite raises \<open>ValueError\<close> outside the \<open>try\<close>, and the request is
  answered with status 500: no rewritten text is returned and nothing is stored.
\<close>

theorem proxy_playlist_rewrite_raises_counterexample:
  "\<not> cached_fresh initial_state ''http://h/p/i.m3u8'' 100 \<and>
   proxy_playlist urljoin_std id bracket_origin (Some ''http://h/p/i.m3u8'') 100 initial_state =
     (\<lparr>status = 500, body = ''Internal Server Error'', mimetype = ''text/html'', headers = []\<rparr>,
      \<lparr>playlist_cache = Map.empty, upstream_log = [''http://h/p/i.m3u8'']\<rparr>)"
  by (simp add: cached_fresh_def initial_state_def proxy_playlist_def proxy_playlist_check_def
        proxy_playlist_fetch_def fetch_bytes_def bracket_origin_def raise_for_status_def
        bracket_rewrite unhandled_def Let_def)

text \<open>
  Claim C2, amended. For a request to \<open>/proxy_playlist\<close> with a non-empty \<open>url\<close>
  parameter \<open>U\<close>: if the cache holds an entry under \<open>U\<close> whose timestamp is less than
  5 seconds before the clock reading, the response is the stored text and the server
  state, with its list of upstream requests, is unchanged. Otherwise, when the
  upstream request succeeds, \<open>U\<close> is requested once and the decoded body is rewritten:
  if the rewrite returns, the rewritten text is stored under \<open>U\<close> with the clock reading
  and is the body of the response; if the rewrite raises, the response has status 500
  and the cache is the one before the request.
\<close>

theorem proxy_playlist_cache_contract:
  assumes "U \<noteq> []"
  shows "(\<forall>e. playlist_cache st U = Some e \<and> now - ts e < 5 \<longrightarrow>
            proxy_playlist uj dec net (Some U) now st =
              (Response (data e) ''application/vnd.apple.mpegurl'', st)) \<and>
         (\<forall>r rewritten. \<not> cached_fresh st U now \<and> net U = Inr r \<and> raise_for_status r = None \<and>
                         rewrite_playlist uj U (dec (content r)) = Inr rewritten \<longrightarrow>
            proxy_playlist uj dec net (Some U) now st =
              (\<lparr>status = 200, body = rewritten, mimetype = ''application/vnd.apple.mpegurl'',
                headers = []\<rparr>,
               \<lparr>playlist_cache = (playlist_cache st)(U \<mapsto> \<lparr>data = rewritten, ts = now\<rparr>),
                upstream_log = upstream_log st @ [U]\<rparr>)) \<and>
         (\<forall>r x. \<not> cached_fresh st U now \<and> net U = Inr r \<and> raise_for_status r = None \<and>
                 rewrite_playlist uj U (dec (content r)) = Inl x \<longrightarrow>
            status (fst (proxy_playlist uj dec net (Some U) now st)) = 500 \<and>
            snd (proxy_playlist uj dec net (Some U) now st) =
              \<lparr>playlist_cache = playlist_cache st, upstream_log = upstream_log st @ [U]\<rparr>)"
proof (intro conjI allI impI)
  fix e assume "playlist_cache st U = Some e \<and> now - ts e < 5"
  with assms show "proxy_playlist uj dec net (Some U) now st =
      (Response (data e) ''application/vnd.apple.mpegurl'', st)"
    by (simp add: proxy_playlist_def check_fresh)
next
  fix r rewritten
  assume "\<not> cached_fresh st U now \<and> net U = Inr r \<and> raise_for_status r = None \<and>
          rewrite_playlist uj U (dec (content r)) = Inr rewritten"
  with assms show "proxy_playlist uj dec net (Some U) now st =
      (\<lparr>status = 200, body = rewritten, mimetype = ''application/vnd.apple.mpegurl'',
        headers = []\<rparr>,
       \<lparr>playlist_cache = (playlist_cache st)(U \<mapsto> \<lparr>data = rewritten, ts = now\<rparr>),
        upstream_log = upstream_log st @ [U]\<rparr>)"
    by (simp add: proxy_playlist_def check_stale fetch_ok Response_def)
next
  fix r x
  assume h: "\<not> cached_fresh st U now \<and> net U = Inr r \<and> raise_for_status r = None \<and>
          rewrite_playlist uj U (dec (content r)) = Inl x"
  with assms show "status (fst (proxy_playlist uj dec net (Some U) now st)) = 500"
    by (simp add: proxy_playlist_def check_stale fetch_rewrite_raises unhandled_def)
  from h assms show "snd (proxy_playlist uj dec net (Some U) now st) =
              \<lparr>playlist_cache = playlist_cache st, upstream_log = upstream_log st @ [U]\<rparr>"
    by (simp add: proxy_playlist_def check_stale fetch_rewrite_raises)
qed

theorem proxy_playlist_cache_contract_witness:
  "proxy_playlist urljoin_std id demo_origin (Some ''http://h/p/i.m3u8'') 100 warm_state =
     (Response ''#EXTM3U'' ''application/vnd.apple.mpegurl'', warm_state) \<and>
   proxy_playlist urljoin_std id demo_origin (Some ''http://h/p/i.m3u8'') 103 warm_state =
     (\<lparr>status = 200, body = demo_rewritten, mimetype = ''application/vnd.apple.mpegurl'',
       headers = []\<rparr>,
      \<lparr>playlist_cache = [''http://h/p/i.m3u8'' \<mapsto> \<lparr>data = demo_rewritten, ts = 103\<rparr>],
       upstream_log = [''http://h/p/i.m3u8'', ''http://h/p/i.m3u8'']\<rparr>) \<and>
   status (fst (proxy_playlist urljoin_std id bracket_origin (Some ''http://h/p/i.m3u8'') 103
                  warm_state)) = 500 \<and>
   snd (proxy_playlist urljoin_std id bracket_origin (Some ''http://h/p/i.m3u8'') 103 warm_state) =
      \<lparr>playlist_cache = [''http://h/p/i.m3u8'' \<mapsto> \<lparr>data = ''#EXTM3U'', ts = 98\<rparr>],
       upstream_log = [''http://h/p/i.m3u8'', ''http://h/p/i.m3u8'']\<rparr>"
proof -
  let ?U = "''http://h/p/i.m3u8''"
  let ?r = "\<lparr>status_code = 200, reason = ''OK'', resp_url = ?U,
          content = demo_body, resp_text = demo_body\<rparr>"
  let ?b = "\<lparr>status_code = 200, reason = ''OK'', resp_url = ?U,
          content = bracket_playlist, resp_text = bracket_playlist\<rparr>"
  let ?x = "ValueError ''Invalid IPv6 URL''"
  have ne: "?U \<noteq> []" by simp
  have hit: "playlist_cache warm_state ?U = Some \<lparr>data = ''#EXTM3U'', ts = 98\<rparr> \<and>
             100 - ts \<lparr>data = ''#EXTM3U'', ts = 98\<rparr> < 5"
    by (simp add: warm_state_def)
  have miss: "\<not> cached_fresh warm_state ?U 103 \<and> demo_origin ?U = Inr ?r \<and>
              raise_for_status ?r = None \<and>
              rewrite_playlist urljoin_std ?U (id (content ?r)) = Inr demo_rewritten"
    by (simp add: cached_fresh_def warm_state_def demo_origin_def raise_for_status_def demo_rewrite)
  have bad: "\<not> cached_fresh warm_state ?U 103 \<and> bracket_origin ?U = Inr ?b \<and>
              raise_for_status ?b = None \<and>
              rewrite_playlist urljoin_std ?U (id (content ?b)) = Inl ?x"
    by (simp add: cached_fresh_def warm_state_def bracket_origin_def raise_for_status_def
          bracket_rewrite)
  note at_100 = proxy_playlist_cache_contract
                  [where U = ?U and st = warm_state and now = 100 and uj = urljoin_std
                     and dec = id and net = demo_origin, OF ne]
  note at_103 = proxy_playlist_cache_contract
                  [where U = ?U and st = warm_state and now = 103 and uj = urljoin_std
                     and dec = id and net = demo_origin, OF ne]
  note at_bad = proxy_playlist_cache_contract
                  [where U = ?U and st = warm_state and now = 103 and uj = urljoin_std
                     and dec = id and net = bracket_origin, OF ne]
  from at_100 [THEN conjunct1, rule_format, OF hit]
  have one: "proxy_playlist urljoin_std id demo_origin (Some ?U) 100 warm_state =
     (Response ''#EXTM3U'' ''application/vnd.apple.mpegurl'', warm_state)"
    by simp
  from at_103 [THEN conjunct2, THEN conjunct1, rule_format, OF miss]
  have two: "proxy_playlist urljoin_std id demo_origin (Some ?U) 103 warm_state =
     (\<lparr>status = 200, body = demo_rewritten, mimetype = ''application/vnd.apple.mpegurl'',
       headers = []\<rparr>,
      \<lparr>playlist_cache = [?U \<mapsto> \<lparr>data = demo_rewritten, ts = 103\<rparr>],
       upstream_log = [?U, ?U]\<rparr>)"
    by (simp add: warm_state_def)
  from at_bad [THEN conjunct2, THEN conjunct2, rule_format, OF bad]
  have three: "status (fst (proxy_playlist urljoin_std id bracket_origin (Some ?U) 103 warm_state)) = 500 \<and>
      snd (proxy_playlist urljoin_std id bracket_origin (Some ?U) 103 warm_state) =
      \<lparr>playlist_cache = [?U \<mapsto> \<lparr>data = ''#EXTM3U'', ts = 98\<rparr>], upstream_log = [?U, ?U]\<rparr>"
    by (simp add: warm_state_def)
  from one two three show ?thesis by blast
qed

text \<open>
  Claim C10. When the upstream request of \<open>/proxy_playlist\<close> raises, for an origin
  that cannot be reached or an HTTP error status, the response has status 502 and
  the cache is the one before the request: no entry is created, replaced or removed.
\<close>

theorem proxy_playlist_fetch_failure:
  assumes "U \<noteq> []" and "\<not> cached_fresh st U now"
    and "(\<exists>e. net U = Inl e) \<or>
         (\<exists>r. net U = Inr r \<and> 400 \<le> status_code r \<and> status_code r < 600)"
  shows "status (fst (proxy_playlist uj dec net (Some U) now st)) = 502 \<and>
         playlist_cache (snd (proxy_playlist uj dec net (Some U) now st)) = playlist_cache st"
proof -
  from assms(3) obtain e where "fst (fetch_bytes net U st) = Inl e"
  proof
    assume "\<exists>e. net U = Inl e"
    then obtain e where "net U = Inl e" by blast
    then have "fst (fetch_bytes net U st) = Inl e" by (simp add: fetch_bytes_raises)
    then show ?thesis by (rule that)
  next
    assume "\<exists>r. net U = Inr r \<and> 400 \<le> status_code r \<and> status_code r < 600"
    then obtain r where "net U = Inr r" "400 \<le> status_code r" "status_code r < 600" by blast
    with fetch_bytes_http_error [of net U r st] obtain e where
      "fetch_bytes net U st = (Inl e, st\<lparr>upstream_log := upstream_log st @ [U]\<rparr>)"
      by blast
    then have "fst (fetch_bytes net U st) = Inl e" by simp
    then show ?thesis by (rule that)
  qed
  with assms(1,2) show ?thesis
    by (simp add: proxy_playlist_def check_stale fetch_failed text_status_def)
qed

theorem proxy_playlist_fetch_failure_witness:
  "status (fst (proxy_playlist urljoin_std id down_origin (Some ''http://h/p/i.m3u8'') 103 warm_state)) = 502 \<and>
   playlist_cache (snd (proxy_playlist urljoin_std id down_origin (Some ''http://h/p/i.m3u8'') 103 warm_state))
     = playlist_cache warm_state \<and>
   status (fst (proxy_playlist urljoin_std id gone_origin (Some ''http://h/p/i.m3u8'') 103 warm_state)) = 502 \<and>
   playlist_cache (snd (proxy_playlist urljoin_std id gone_origin (Some ''http://h/p/i.m3u8'') 103 warm_state))
     = playlist_cache warm_state"
proof -
  let ?U = "''http://h/p/i.m3u8''"
  have ne: "?U \<noteq> []" by simp
  have stale: "\<not> cached_fresh warm_state ?U 103"
    by (simp add: cached_fresh_def warm_state_def)
  have down: "(\<exists>e. down_origin ?U = Inl e) \<or>
         (\<exists>r. down_origin ?U = Inr r \<and> 400 \<le> status_code r \<and> status_code r < 600)"
    by (simp add: down_origin_def)
  have gone: "(\<exists>e. gone_origin ?U = Inl e) \<or>
         (\<exists>r. gone_origin ?U = Inr r \<and> 400 \<le> status_code r \<and> status_code r < 600)"
    by (simp add: gone_origin_def)
  from proxy_playlist_fetch_failure
         [where net = down_origin and U = ?U and st = warm_state and now = 103
            and uj = urljoin_std and dec = id, OF ne stale down]
       proxy_playlist_fetch_failure
         [where net = gone_origin and U = ?U and st = warm_state and now = 103
            and uj = urljoin_std and dec = id, OF ne stale gone]
  show ?thesis by blast
qed

subsection \<open>Segment relay\<close>

lemma segment_state:
  "E \<noteq> [] \<Longrightarrow> snd (segment net (Some E) st) = st\<lparr>upstream_log := upstream_log st @ [unquote_plus E]\<rparr>"
  using fetch_bytes_state [of net "unquote_plus E" st]
  by (cases "fetch_bytes net (unquote_plus E) st") (auto simp: segment_def split: sum.splits)

lemma segment_success:
  "E \<noteq> [] \<Longrightarrow> net (unquote_plus E) = Inr r \<Longrightarrow> \<not> (400 \<le> status_code r \<and> status_code r < 600) \<Longrightarrow>
   fst (segment net (Some E) st) = segment_ok (content r)"
  by (simp add: segment_def fetch_bytes_ok raise_for_status_None segment_ok_def Response_def)

lemma segment_raises:
  "E \<noteq> [] \<Longrightarrow> net (unquote_plus E) = Inl e \<Longrightarrow> status (fst (segment net (Some E) st)) = 502"
  by (simp add: segment_def fetch_bytes_raises text_status_def)

lemma segment_http_error:
  assumes "E \<noteq> []" "net (unquote_plus E) = Inr r" "400 \<le> status_code r" "status_code r < 600"
  shows "status (fst (segment net (Some E) st)) = 502"
proof -
  from fetch_bytes_http_error [of net "unquote_plus E" r st] assms(2-4) obtain e where
    "fetch_bytes net (unquote_plus E) st = (Inl e, st\<lparr>upstream_log := upstream_log st @ [unquote_plus E]\<rparr>)"
    by blast
  with assms(1) show ?thesis by (simp add: segment_def text_status_def)
qed

text \<open>
  The view applies \<open>unquote_plus\<close> to a value that Flask has decoded already: for the
  text \<open>E\<close> written after \<open>u=\<close> in the request line, the URL requested upstream is \<open>E\<close>
  decoded twice. The request is made once, and the cache is left alone.
\<close>

lemma segment_request_decodes_twice:
  assumes "unquote_plus E \<noteq> []"
  shows "upstream_log (snd (segment_request net (Some E) st))
           = upstream_log st @ [unquote_plus (unquote_plus E)]"
    and "playlist_cache (snd (segment_request net (Some E) st)) = playlist_cache st"
  using assms by (simp_all add: segment_request_def request_arg_def segment_state)

lemma plus_rewrite:
  "rewrite_playlist urljoin_std ''http://h/p/i.m3u8'' ''a+b.ts''
     = Inr ''/segment?u=http%3A%2F%2Fh%2Fp%2Fa%2Bb.ts&i=0''"
  by code_simp

lemma plus_join: "urljoin_std ''http://h/p/i.m3u8'' (strip ''a+b.ts'') = Inr ''http://h/p/a+b.ts''"
  by code_simp

lemma plus_once: "unquote_plus ''http%3A%2F%2Fh%2Fp%2Fa%2Bb.ts'' = ''http://h/p/a+b.ts''"
  by code_simp

lemma plus_twice: "unquote_plus ''http://h/p/a+b.ts'' = ''http://h/p/a b.ts''"
  by code_simp

lemma demo_body_length: "str_nat (length demo_body) = ''12''"
  by code_simp

text \<open>
  Claim C7: the code departs from it. The playlist at \<open>http://h/p/i.m3u8\<close> has the
  segment line \<open>a+b.ts\<close>. The rewrite resolves it to \<open>http://h/p/a+b.ts\<close> and encodes
  that URL once, as \<open>http%3A%2F%2Fh%2Fp%2Fa%2Bb.ts\<close>, and decoding this text once gives
  the URL back. For the request \<open>GET /segment?u=http%3A%2F%2Fh%2Fp%2Fa%2Bb.ts\<close> the
  view requests \<open>http://h/p/a b.ts\<close> upstream, a different URL, and relays what the origin
  answers there with status 200.
\<close>

theorem segment_decodes_twice:
  "rewrite_playlist urljoin_std ''http://h/p/i.m3u8'' ''a+b.ts''
     = Inr (''/segment?u='' @ ''http%3A%2F%2Fh%2Fp%2Fa%2Bb.ts'' @ ''&i=0'') \<and>
   urljoin_std ''http://h/p/i.m3u8'' (strip ''a+b.ts'') = Inr ''http://h/p/a+b.ts'' \<and>
   unquote_plus ''http%3A%2F%2Fh%2Fp%2Fa%2Bb.ts'' = ''http://h/p/a+b.ts'' \<and>
   upstream_log (snd (segment_request demo_origin (Some ''http%3A%2F%2Fh%2Fp%2Fa%2Bb.ts'')
                        initial_state)) = [''http://h/p/a b.ts''] \<and>
   fst (segment_request demo_origin (Some ''http%3A%2F%2Fh%2Fp%2Fa%2Bb.ts'') initial_state) =
     \<lparr>status = 200, body = demo_body, mimetype = ''video/MP2T'',
       headers = [(''Content-Length'', ''12'')]\<rparr>"
proof -
  let ?E = "''http%3A%2F%2Fh%2Fp%2Fa%2Bb.ts''"
  have ne: "unquote_plus ?E \<noteq> []" by (simp add: plus_once)
  have log: "upstream_log (snd (segment_request demo_origin (Some ?E) initial_state))
               = [''http://h/p/a b.ts'']"
    using segment_request_decodes_twice(1) [OF ne, of demo_origin initial_state]
    by (simp add: plus_once plus_twice initial_state_def)
  have resp: "fst (segment_request demo_origin (Some ?E) initial_state) =
     \<lparr>status = 200, body = demo_body, mimetype = ''video/MP2T'',
       headers = [(''Content-Length'', ''12'')]\<rparr>"
    using segment_success [of "''http://h/p/a+b.ts''" demo_origin _ initial_state]
    by (simp add: segment_request_def request_arg_def plus_once plus_twice demo_origin_def
          segment_ok_def demo_body_length)
  show ?thesis
    using plus_rewrite plus_join plus_once log resp by simp
qed

subsection \<open>Two requests for one manifest\<close>

text \<open>
  Claim C3 as stated fails. Two requests for the same manifest arrive one second
  apart against an empty cache, and both look the cache up before either has stored
  its result: the manifest is requested upstream twice.
\<close>

theorem concurrent_requests_counterexample:
  "upstream_log (snd (snd (run_threads urljoin_std id demo_origin
      [(First, 100), (Second, 101), (First, 102), (Second, 103)]
      (Arrived (Some ''http://h/p/i.m3u8''), Arrived (Some ''http://h/p/i.m3u8''), initial_state))))
   = [''http://h/p/i.m3u8'', ''http://h/p/i.m3u8'']"
  by (simp add: advance_def proxy_playlist_check_def proxy_playlist_fetch_def fetch_bytes_def
        demo_origin_def initial_state_def raise_for_status_def Let_def demo_rewrite)

lemma advance_check_stale:
  "U \<noteq> [] \<Longrightarrow> \<not> cached_fresh st U now \<Longrightarrow>
   advance uj dec net now (Arrived (Some U)) st = (Fetching U now, st)"
  by (simp add: advance_def check_stale)

lemma advance_check_fresh:
  "U \<noteq> [] \<Longrightarrow> playlist_cache st U = Some e \<Longrightarrow> now - ts e < 5 \<Longrightarrow>
   advance uj dec net now (Arrived (Some U)) st =
     (Answered (Response (data e) ''application/vnd.apple.mpegurl''), st)"
  by (simp add: advance_def check_fresh)

lemma advance_fetch_ok:
  "net U = Inr r \<Longrightarrow> raise_for_status r = None \<Longrightarrow>
   rewrite_playlist uj U (dec (content r)) = Inr rewritten \<Longrightarrow>
   advance uj dec net now (Fetching U t) st =
     (Answered (Response rewritten ''application/vnd.apple.mpegurl''),
      \<lparr>playlist_cache = (playlist_cache st)(U \<mapsto> \<lparr>data = rewritten, ts = t\<rparr>),
       upstream_log = upstream_log st @ [U]\<rparr>)"
  by (simp add: advance_def fetch_ok)

lemma advance_fetch_log:
  "upstream_log (snd (advance uj dec net now (Fetching U t) st)) = upstream_log st @ [U]"
  using fetch_bytes_log [of net U st]
  by (cases "fetch_bytes net U st")
     (auto simp: advance_def proxy_playlist_fetch_def Let_def split: sum.splits prod.splits)

text \<open>
  Claim C3, amended. For two requests to \<open>/proxy_playlist\<close> with the same non-empty
  \<open>url\<close> parameter, where no fresh entry is cached and the upstream request
  succeeds: when the second request looks the cache up after the first has stored its
  result, as it does when the rewrite of the fetched body returns, less than 5 seconds
  after the first one's clock reading, the manifest is requested upstream exactly once
  and both get the same rewritten text. The handler does not coalesce requests: when
  both look the cache up before either has stored, each requests the manifest
  upstream.
\<close>

theorem sequential_requests_one_fetch:
  assumes "U \<noteq> []" and "\<not> cached_fresh st U now1"
    and "net U = Inr r" and "raise_for_status r = None"
    and "now2 - now1 < 5"
  shows "(\<forall>rewritten. rewrite_playlist uj U (dec (content r)) = Inr rewritten \<longrightarrow>
          (\<exists>resp st'.
             run_threads uj dec net [(First, now1), (First, t1), (Second, now2), (Second, t2)]
               (Arrived (Some U), Arrived (Some U), st) = (Answered resp, Answered resp, st') \<and>
             body resp = rewritten \<and>
             upstream_log st' = upstream_log st @ [U])) \<and>
         (\<not> cached_fresh st U now2 \<longrightarrow>
           upstream_log (snd (snd (run_threads uj dec net
             [(First, now1), (Second, now2), (First, t1), (Second, t2)]
             (Arrived (Some U), Arrived (Some U), st)))) = upstream_log st @ [U, U])"
proof (intro conjI allI impI)
  fix rewritten
  assume rw: "rewrite_playlist uj U (dec (content r)) = Inr rewritten"
  let ?resp = "Response rewritten ''application/vnd.apple.mpegurl''"
  let ?st1 = "\<lparr>playlist_cache = (playlist_cache st)(U \<mapsto> \<lparr>data = rewritten, ts = now1\<rparr>),
               upstream_log = upstream_log st @ [U]\<rparr>"
  have s1: "advance uj dec net now1 (Arrived (Some U)) st = (Fetching U now1, st)"
    using assms(1,2) by (rule advance_check_stale)
  have s2: "advance uj dec net t1 (Fetching U now1) st = (Answered ?resp, ?st1)"
    using assms(3,4) rw by (rule advance_fetch_ok)
  have "playlist_cache ?st1 U = Some \<lparr>data = rewritten, ts = now1\<rparr>" by simp
  moreover have "now2 - ts \<lparr>data = rewritten, ts = now1\<rparr> < 5" using assms(5) by simp
  ultimately have s3: "advance uj dec net now2 (Arrived (Some U)) ?st1 = (Answered ?resp, ?st1)"
    using advance_check_fresh [OF assms(1), of ?st1 "\<lparr>data = rewritten, ts = now1\<rparr>" now2 uj dec net]
    by simp
  have s4: "advance uj dec net t2 (Answered ?resp) ?st1 = (Answered ?resp, ?st1)"
    by (simp add: advance_def)
  have "run_threads uj dec net [(First, now1), (First, t1), (Second, now2), (Second, t2)]
          (Arrived (Some U), Arrived (Some U), st) = (Answered ?resp, Answered ?resp, ?st1)"
    by (simp add: s1 s2 s3 s4)
  moreover have "body ?resp = rewritten" by (simp add: Response_def)
  moreover have "upstream_log ?st1 = upstream_log st @ [U]" by simp
  ultimately show "\<exists>resp st'.
           run_threads uj dec net [(First, now1), (First, t1), (Second, now2), (Second, t2)]
             (Arrived (Some U), Arrived (Some U), st) = (Answered resp, Answered resp, st') \<and>
           body resp = rewritten \<and>
           upstream_log st' = upstream_log st @ [U]"
    by blast
next
  assume stale2: "\<not> cached_fresh st U now2"
  have s1: "advance uj dec net now1 (Arrived (Some U)) st = (Fetching U now1, st)"
    using assms(1,2) by (rule advance_check_stale)
  have s2: "advance uj dec net now2 (Arrived (Some U)) st = (Fetching U now2, st)"
    using assms(1) stale2 by (rule advance_check_stale)
  obtain a st1 where s3: "advance uj dec net t1 (Fetching U now1) st = (a, st1)"
    by (cases "advance uj dec net t1 (Fetching U now1) st")
  obtain b st2 where s4: "advance uj dec net t2 (Fetching U now2) st1 = (b, st2)"
    by (cases "advance uj dec net t2 (Fetching U now2) st1")
  have "upstream_log st1 = upstream_log st @ [U]"
    using advance_fetch_log [of uj dec net t1 U now1 st] by (simp add: s3)
  moreover have "upstream_log st2 = upstream_log st1 @ [U]"
    using advance_fetch_log [of uj dec net t2 U now2 st1] by (simp add: s4)
  ultimately show "upstream_log (snd (snd (run_threads uj dec net
             [(First, now1), (Second, now2), (First, t1), (Second, t2)]
             (Arrived (Some U), Arrived (Some U), st)))) = upstream_log st @ [U, U]"
    by (simp add: s1 s2 s3 s4)
qed

theorem sequential_requests_one_fetch_witness:
  "(\<exists>resp st'.
      run_threads urljoin_std id demo_origin [(First, 100), (First, 102), (Second, 103), (Second, 104)]
        (Arrived (Some ''http://h/p/i.m3u8''), Arrived (Some ''http://h/p/i.m3u8''), initial_state)
        = (Answered resp, Answered resp, st') \<and>
      body resp = demo_rewritten \<and> upstream_log st' = [''http://h/p/i.m3u8'']) \<and>
   upstream_log (snd (snd (run_threads urljoin_std id demo_origin
        [(First, 100), (Second, 103), (First, 102), (Second, 104)]
        (Arrived (Some ''http://h/p/i.m3u8''), Arrived (Some ''http://h/p/i.m3u8''), initial_state))))
     = [''http://h/p/i.m3u8'', ''http://h/p/i.m3u8'']"
proof -
  let ?U = "''http://h/p/i.m3u8''"
  let ?r = "\<lparr>status_code = 200, reason = ''OK'', resp_url = ?U,
          content = demo_body, resp_text = demo_body\<rparr>"
  have ne: "?U \<noteq> []" by simp
  have stale1: "\<not> cached_fresh initial_state ?U 100"
    by (simp add: cached_fresh_def initial_state_def)
  have stale2: "\<not> cached_fresh initial_state ?U 103"
    by (simp add: cached_fresh_def initial_state_def)
  have net: "demo_origin ?U = Inr ?r" by (simp add: demo_origin_def)
  have ok: "raise_for_status ?r = None" by (simp add: raise_for_status_def)
  have near: "(103::real) - 100 < 5" by simp
  have rw: "rewrite_playlist urljoin_std ?U (id (content ?r)) = Inr demo_rewritten"
    by (simp add: demo_rewrite)
  note both = sequential_requests_one_fetch
                [where U = ?U and st = initial_state and ?now1.0 = 100 and net = demo_origin
                   and r = ?r and ?now2.0 = 103 and uj = urljoin_std and dec = id
                   and ?t1.0 = 102 and ?t2.0 = 104,
                 OF ne stale1 net ok near]
  from both [THEN conjunct1, rule_format, OF rw]
  have "\<exists>resp st'.
      run_threads urljoin_std id demo_origin [(First, 100), (First, 102), (Second, 103), (Second, 104)]
        (Arrived (Some ?U), Arrived (Some ?U), initial_state) = (Answered resp, Answered resp, st') \<and>
      body resp = demo_rewritten \<and> upstream_log st' = [?U]"
    by (simp add: initial_state_def)
  moreover from both [THEN conjunct2] stale2
  have "upstream_log (snd (snd (run_threads urljoin_std id demo_origin
        [(First, 100), (Second, 103), (First, 102), (Second, 104)]
        (Arrived (Some ?U), Arrived (Some ?U), initial_state)))) = [?U, ?U]"
    by (simp add: initial_state_def)
  ultimately show ?thesis by blast
qed

subsection \<open>Capture of the first manifest request\<close>

lemma str_in_nonempty: "str_in ''.m3u8'' u \<Longrightarrow> u \<noteq> []"
  by (cases u) simp_all

lemma on_request_truthy: "truthy (cap_url c) \<Longrightarrow> on_request u c = c"
  by (simp add: on_request_def)

lemma deliver_truthy: "truthy (cap_url c) \<Longrightarrow> deliver reqs c = c"
  by (induction reqs) (simp_all add: deliver_def on_request_truthy)

lemma deliver_Cons: "deliver (u # reqs) c = deliver reqs (on_request u c)"
  by (simp add: deliver_def)

lemma deliver_Nil: "deliver [] c = c"
  by (simp add: deliver_def)

lemma on_request_match:
  "str_in ''.m3u8'' u \<Longrightarrow> \<not> truthy (cap_url c) \<Longrightarrow>
   on_request u c = c\<lparr>cap_url := Some u, cap_writes := cap_writes c + 1\<rparr>"
  by (simp add: on_request_def)

lemma on_request_other: "\<not> str_in ''.m3u8'' u \<Longrightarrow> on_request u c = c"
  by (simp add: on_request_def)

lemma deliver_first:
  "\<not> truthy (cap_url c) \<Longrightarrow>
   deliver reqs c =
     (case find (str_in ''.m3u8'') reqs of
        None \<Rightarrow> c
      | Some u \<Rightarrow> c\<lparr>cap_url := Some u, cap_writes := cap_writes c + 1\<rparr>)"
proof (induction reqs)
  case Nil
  show ?case by (simp add: deliver_Nil)
next
  case (Cons u reqs)
  show ?case
  proof (cases "str_in ''.m3u8'' u")
    case True
    then have "truthy (cap_url (c\<lparr>cap_url := Some u, cap_writes := cap_writes c + 1\<rparr>))"
      by (simp add: truthy_def str_in_nonempty)
    then show ?thesis
      using True Cons.prems by (simp add: deliver_Cons on_request_match deliver_truthy)
  next
    case False
    then show ?thesis
      using Cons by (simp add: deliver_Cons on_request_other)
  qed
qed

lemma slot_ok_on_request: "slot_ok c \<Longrightarrow> slot_ok (on_request u c)"
  by (auto simp: slot_ok_def on_request_def truthy_def str_in_nonempty)

lemma slot_ok_deliver: "slot_ok c \<Longrightarrow> slot_ok (deliver reqs c)"
  by (induction reqs arbitrary: c) (simp_all add: deliver_Nil deliver_Cons slot_ok_on_request)

lemma slot_ok_poll: "slot_ok c \<Longrightarrow> slot_ok (poll n waits c)"
  by (induction n waits c rule: poll.induct) (auto simp: slot_ok_deliver split: list.splits)

lemma slot_ok_fresh: "slot_ok fresh_captured"
  by (simp add: slot_ok_def fresh_captured_def truthy_def)

lemma slot_ok_run_session: "slot_ok (run_session s)"
  by (simp add: run_session_def slot_ok_poll slot_ok_deliver slot_ok_fresh)

lemma slot_ok_writes: "slot_ok c \<Longrightarrow> cap_writes c \<le> 1"
  by (simp add: slot_ok_def split: if_splits)

text \<open>
  Claim C4. In a capture session the slot is written at most once. After any list of
  observed requests, starting from the fresh slot, the slot holds the first request
  whose URL contains \<open>.m3u8\<close>, or nothing when there is none; the number of
  assignments is at most one; and once the slot holds a URL, any further requests
  leave it, and the number of assignments, as they are. The same bound holds for a
  whole session with its polling loop.
\<close>

theorem captured_written_once:
  "cap_url (deliver reqs fresh_captured) = find (str_in ''.m3u8'') reqs \<and>
   cap_writes (deliver reqs fresh_captured) \<le> 1 \<and>
   (cap_url (deliver reqs fresh_captured) \<noteq> None \<longrightarrow>
      deliver later (deliver reqs fresh_captured) = deliver reqs fresh_captured) \<and>
   cap_writes (run_session s) \<le> 1"
proof (intro conjI impI)
  have fresh: "\<not> truthy (cap_url fresh_captured)"
    by (simp add: fresh_captured_def truthy_def)
  show first: "cap_url (deliver reqs fresh_captured) = find (str_in ''.m3u8'') reqs"
    unfolding deliver_first [OF fresh] by (simp add: fresh_captured_def split: option.splits)
  show "cap_writes (deliver reqs fresh_captured) \<le> 1"
    by (rule slot_ok_writes) (simp add: slot_ok_deliver slot_ok_fresh)
  show "cap_writes (run_session s) \<le> 1"
    by (rule slot_ok_writes) (rule slot_ok_run_session)
  assume "cap_url (deliver reqs fresh_captured) \<noteq> None"
  then obtain u where u: "find (str_in ''.m3u8'') reqs = Some u"
    using first by auto
  then have "str_in ''.m3u8'' u" by (auto simp: find_Some_iff)
  then have "truthy (cap_url (deliver reqs fresh_captured))"
    using first u by (simp add: truthy_def str_in_nonempty)
  then show "deliver later (deliver reqs fresh_captured) = deliver reqs fresh_captured"
    by (rule deliver_truthy)
qed

lemma demo_find: "find (str_in ''.m3u8'') demo_requests = Some ''http://h/a.m3u8''"
  by code_simp

theorem captured_written_once_witness:
  "cap_url (deliver demo_requests fresh_captured) = Some ''http://h/a.m3u8'' \<and>
   deliver [''http://h/c.m3u8''] (deliver demo_requests fresh_captured)
     = deliver demo_requests fresh_captured"
  using captured_written_once [of demo_requests "[''http://h/c.m3u8'']"]
  unfolding demo_find by simp

lemma on_request_source:
  "cap_url (on_request r c) = Some u \<Longrightarrow> cap_url c = Some u \<or> (u = r \<and> str_in ''.m3u8'' r)"
  by (auto simp: on_request_def split: if_splits)

lemma deliver_source:
  "cap_url (deliver reqs c) = Some u \<Longrightarrow>
   cap_url c = Some u \<or> (u \<in> set reqs \<and> str_in ''.m3u8'' u)"
proof (induction reqs arbitrary: c)
  case Nil
  then show ?case by (simp add: deliver_Nil)
next
  case (Cons r reqs)
  from Cons.prems have "cap_url (deliver reqs (on_request r c)) = Some u"
    by (simp add: deliver_Cons)
  from Cons.IH [OF this] show ?case
    using on_request_source [of r c u] by auto
qed

lemma poll_source:
  "cap_url (poll n waits c) = Some u \<Longrightarrow>
   cap_url c = Some u \<or> (u \<in> set (concat waits) \<and> str_in ''.m3u8'' u)"
proof (induction n waits c rule: poll.induct)
  case (1 waits c)
  then show ?case by simp
next
  case (2 n waits c)
  show ?case
  proof (cases "truthy (cap_url c)")
    case True
    with 2 show ?thesis by simp
  next
    case False
    show ?thesis
    proof (cases waits)
      case Nil
      with 2 False show ?thesis by simp
    next
      case (Cons w ws)
      with 2 False have "cap_url (deliver w c) = Some u \<or> (u \<in> set (concat ws) \<and> str_in ''.m3u8'' u)"
        by simp
      then show ?thesis
        using deliver_source [of w c u] Cons by auto
    qed
  qed
qed

lemma run_session_source:
  assumes "cap_url (run_session s) = Some u"
  shows "u \<in> set (session_requests s) \<and> str_in ''.m3u8'' u"
proof -
  let ?c0 = "deliver (goto_requests s) fresh_captured"
  let ?c1 = "deliver (click_requests s) ?c0"
  let ?c2 = "poll 30 (wait_requests s) ?c1"
  from assms have "cap_url ?c2 = Some u \<or> (u \<in> set (close_requests s) \<and> str_in ''.m3u8'' u)"
    unfolding run_session_def by (rule deliver_source)
  moreover have "cap_url ?c2 = Some u \<Longrightarrow>
      cap_url ?c1 = Some u \<or> (u \<in> set (concat (wait_requests s)) \<and> str_in ''.m3u8'' u)"
    by (rule poll_source)
  moreover have "cap_url ?c1 = Some u \<Longrightarrow>
      cap_url ?c0 = Some u \<or> (u \<in> set (click_requests s) \<and> str_in ''.m3u8'' u)"
    by (rule deliver_source)
  moreover have "cap_url ?c0 = Some u \<Longrightarrow> u \<in> set (goto_requests s) \<and> str_in ''.m3u8'' u"
    using deliver_source [of "goto_requests s" fresh_captured u]
    by (simp add: fresh_captured_def)
  ultimately show ?thesis by (auto simp: session_requests_def)
qed

lemma truthy_Some: "truthy v \<Longrightarrow> \<exists>u. v = Some u"
  by (cases v) (simp_all add: truthy_def)

lemma capture_loop_spec:
  "snd (capture_loop b p a k) \<le> a + k - 1 \<and>
   (fst (capture_loop b p a k) = None \<longrightarrow>
      snd (capture_loop b p a k) = a + k - 1 \<and>
      (\<forall>j. a \<le> j \<and> j < a + k \<longrightarrow> \<not> truthy (cap_url (run_session (b p j))))) \<and>
   (\<forall>u. fst (capture_loop b p a k) = Some u \<longrightarrow>
      a \<le> snd (capture_loop b p a k) \<and>
      cap_url (run_session (b p (snd (capture_loop b p a k)))) = Some u \<and>
      (\<forall>j. a \<le> j \<and> j < snd (capture_loop b p a k) \<longrightarrow> \<not> truthy (cap_url (run_session (b p j)))))"
proof (induction k arbitrary: a)
  case 0
  show ?case by auto
next
  case (Suc k)
  show ?case
  proof (cases "truthy (cap_url (run_session (b p a)))")
    case True
    then have eq: "capture_loop b p a (Suc k) = (cap_url (run_session (b p a)), a)"
      by (simp add: Let_def)
    from True obtain u where "cap_url (run_session (b p a)) = Some u"
      by (auto dest: truthy_Some)
    then show ?thesis unfolding eq by auto
  next
    case False
    then have eq: "capture_loop b p a (Suc k) = capture_loop b p (a + 1) k"
      by (simp add: Let_def)
    have step: "\<And>j. a \<le> j \<Longrightarrow> j = a \<or> a + 1 \<le> j" by arith
    show ?thesis
      unfolding eq using Suc.IH [of "a + 1"] False
      by (auto dest: step)
  qed
qed

text \<open>
  Claim C5. With \<open>retries = 3\<close>, the default and the value at the call site,
  \<open>capture_first_m3u8\<close> launches at most 3 sessions, each observed from a fresh slot.
  When it returns a URL, that URL was requested in the last session launched, contains
  \<open>.m3u8\<close>, is the one that session's slot holds, and no earlier session captured
  anything. When it returns \<open>None\<close>, exactly 3 sessions were launched and none of them
  captured anything.
\<close>

theorem capture_first_m3u8_attempts:
  "snd (capture_first_m3u8 b page_url 3) \<le> 3 \<and>
   (fst (capture_first_m3u8 b page_url 3) = None \<longrightarrow>
      snd (capture_first_m3u8 b page_url 3) = 3 \<and>
      (\<forall>j. 1 \<le> j \<and> j \<le> 3 \<longrightarrow> \<not> truthy (cap_url (run_session (b page_url j))))) \<and>
   (\<forall>u. fst (capture_first_m3u8 b page_url 3) = Some u \<longrightarrow>
      1 \<le> snd (capture_first_m3u8 b page_url 3) \<and>
      cap_url (run_session (b page_url (snd (capture_first_m3u8 b page_url 3)))) = Some u \<and>
      u \<in> set (session_requests (b page_url (snd (capture_first_m3u8 b page_url 3)))) \<and>
      str_in ''.m3u8'' u \<and>
      (\<forall>j. 1 \<le> j \<and> j < snd (capture_first_m3u8 b page_url 3) \<longrightarrow>
           \<not> truthy (cap_url (run_session (b page_url j)))))"
proof -
  note spec = capture_loop_spec [of b page_url 1 3, folded capture_first_m3u8_def]
  have src: "\<And>u. fst (capture_first_m3u8 b page_url 3) = Some u \<Longrightarrow>
      u \<in> set (session_requests (b page_url (snd (capture_first_m3u8 b page_url 3)))) \<and>
      str_in ''.m3u8'' u"
    using spec by (auto dest: run_session_source)
  have le: "\<And>j::nat. j \<le> 3 \<Longrightarrow> j < 1 + 3" by simp
  show ?thesis
    using spec src by (auto dest: le)
qed

lemma demo_capture: "capture_first_m3u8 demo_browser ''http://h/embed'' 3 = (Some ''http://h/a.m3u8'', 2)"
  by code_simp

lemma dead_capture: "capture_first_m3u8 dead_browser ''http://h/embed'' 3 = (None, 3)"
  by code_simp

theorem capture_first_m3u8_attempts_witness:
  "fst (capture_first_m3u8 demo_browser ''http://h/embed'' 3) = Some ''http://h/a.m3u8'' \<and>
   cap_url (run_session (demo_browser ''http://h/embed'' 2)) = Some ''http://h/a.m3u8'' \<and>
   \<not> truthy (cap_url (run_session (demo_browser ''http://h/embed'' 1))) \<and>
   fst (capture_first_m3u8 dead_browser ''http://h/embed'' 3) = None \<and>
   \<not> truthy (cap_url (run_session (dead_browser ''http://h/embed'' 3)))"
  using capture_first_m3u8_attempts [of demo_browser "''http://h/embed''"]
        capture_first_m3u8_attempts [of dead_browser "''http://h/embed''"]
  unfolding demo_capture dead_capture by simp

subsection \<open>Variant selection\<close>
































subsection \<open>Title matching\<close>

lemma extract_loop_spec:
  assumes "all = done @ choices" and "length done = idx"
    and "case result of None \<Rightarrow> idx = 0 | Some t \<Rightarrow> best_of sc query all idx t"
  shows "case extract_loop sc query choices idx result of
           None \<Rightarrow> all = []
         | Some t \<Rightarrow> best_of sc query all (length all) t"
  using assms
proof (induction choices arbitrary: "done" idx result)
  case Nil
  then show ?case by (auto split: option.splits)
next
  case (Cons choice choices)
  have all: "all = (done @ [choice]) @ choices" using Cons.prems(1) by simp
  have len: "length (done @ [choice]) = idx + 1" using Cons.prems(2) by simp
  have at: "all ! idx = choice" using Cons.prems(1,2) by (simp add: nth_append)
  let ?score = "sc query choice"
  show ?case
  proof (cases "case result of None \<Rightarrow> True | Some (_, best, _) \<Rightarrow> best < ?score")
    case True
    have "best_of sc query all (idx + 1) (choice, ?score, idx)"
    proof (cases result)
      case None
      with Cons.prems(3) have "idx = 0" by simp
      then show ?thesis using at by (simp add: best_of_def)
    next
      case (Some t)
      obtain c s i where t: "t = (c, s, i)" by (cases t)
      with Some True have lt: "s < ?score" by simp
      from Some t Cons.prems(3) have b: "\<forall>j<idx. sc query (all ! j) \<le> s"
        by (auto simp: best_of_def)
      have "\<forall>j<idx. sc query (all ! j) < ?score"
        using b lt by (meson le_less_trans)
      moreover have "\<forall>j<idx + 1. sc query (all ! j) \<le> ?score"
      proof (intro allI impI)
        fix j assume "j < idx + 1"
        then have "j < idx \<or> j = idx" by arith
        then show "sc query (all ! j) \<le> ?score"
          using \<open>\<forall>j<idx. sc query (all ! j) < ?score\<close> at by (auto simp: less_imp_le)
      qed
      ultimately show ?thesis using at by (simp add: best_of_def)
    qed
    then have "case Some (choice, ?score, idx) of None \<Rightarrow> idx + 1 = 0
               | Some t \<Rightarrow> best_of sc query all (idx + 1) t"
      by simp
    from Cons.IH [OF all len this] show ?thesis
      using True by (simp add: Let_def)
  next
    case False
    then obtain c s i where res: "result = Some (c, s, i)" and ge: "?score \<le> s"
      by (cases result) (auto simp: not_less)
    from res Cons.prems(3) have b: "best_of sc query all idx (c, s, i)" by simp
    have "best_of sc query all (idx + 1) (c, s, i)"
    proof -
      have "\<forall>j<idx + 1. sc query (all ! j) \<le> s"
      proof (intro allI impI)
        fix j assume "j < idx + 1"
        then have "j < idx \<or> j = idx" by arith
        then show "sc query (all ! j) \<le> s"
          using b ge at by (auto simp: best_of_def)
      qed
      with b show ?thesis by (auto simp: best_of_def)
    qed
    then have "case result of None \<Rightarrow> idx + 1 = 0
               | Some t \<Rightarrow> best_of sc query all (idx + 1) t"
      using res by simp
    from Cons.IH [OF all len this] show ?thesis
      using False by (simp add: Let_def)
  qed
qed

lemma extractOne_spec:
  "case extractOne sc query choices of
     None \<Rightarrow> choices = []
   | Some t \<Rightarrow> best_of sc query choices (length choices) t"
  unfolding extractOne_def
  by (rule extract_loop_spec [where ?done = "[]"]) simp_all

lemma names_of_length: "names_of results = Inr names \<Longrightarrow> length names = length results"
  by (induction results arbitrary: names) (auto split: sum.splits)

lemma names_of_nth:
  "names_of results = Inr names \<Longrightarrow> i < length results \<Longrightarrow>
   display_name (results ! i) = Inr (names ! i)"
proof (induction results arbitrary: names i)
  case Nil
  then show ?case by simp
next
  case (Cons r rs)
  then show ?case by (cases i) (auto split: sum.splits)
qed

lemma get_best_match_cases:
  assumes "names_of results = Inr names"
  shows "(names = [] \<and> get_best_match sc title results = Inr None) \<or>
         (\<exists>i<length results.
            display_name (results ! i) = Inr (names ! i) \<and>
            (\<forall>j<length results. sc title (names ! j) \<le> sc title (names ! i)) \<and>
            get_best_match sc title results =
              Inr (if 60 < sc title (names ! i) then Some (results ! i) else None))"
proof (cases "names = []")
  case True
  with assms show ?thesis by (simp add: get_best_match_def)
next
  case False
  have len: "length names = length results" using assms by (rule names_of_length)
  from extractOne_spec [where sc = sc and query = title and choices = names] False
  obtain c s i where one: "extractOne sc title names = Some (c, s, i)"
    and best: "best_of sc title names (length names) (c, s, i)"
    by (cases "extractOne sc title names") auto
  from best have i: "i < length results" and c: "names ! i = c" and s: "s = sc title c"
    and top: "\<forall>j<length results. sc title (names ! j) \<le> s"
    using len by (auto simp: best_of_def)
  have "display_name (results ! i) = Inr (names ! i)"
    using assms i by (rule names_of_nth)
  moreover have "get_best_match sc title results =
      Inr (if 60 < sc title (names ! i) then Some (results ! i) else None)"
    using assms False one i c s by (simp add: get_best_match_def)
  ultimately show ?thesis using i top c s by blast
qed

text \<open>
  Claim C8. When \<open>get_best_match\<close> returns a result, that result is one of the
  catalog results, its name scores more than 60, and no result's name scores more.
  When every name scores 60 or less, in particular when there are no results, it
  returns \<open>None\<close>. When some name scores more than 60, it returns a result.
\<close>

theorem get_best_match_threshold:
  "(\<forall>r. get_best_match sc title results = Inr (Some r) \<longrightarrow>
        r \<in> set results \<and>
        (\<exists>n. display_name r = Inr n \<and> 60 < sc title n \<and>
             (\<forall>r'\<in>set results. \<forall>n'. display_name r' = Inr n' \<longrightarrow> sc title n' \<le> sc title n))) \<and>
   (\<forall>names. names_of results = Inr names \<and> (\<forall>n\<in>set names. sc title n \<le> 60) \<longrightarrow>
        get_best_match sc title results = Inr None) \<and>
   (\<forall>names. names_of results = Inr names \<and> (\<exists>n\<in>set names. 60 < sc title n) \<longrightarrow>
        (\<exists>r. get_best_match sc title results = Inr (Some r)))"
proof -
  have first: "\<forall>r. get_best_match sc title results = Inr (Some r) \<longrightarrow>
        r \<in> set results \<and>
        (\<exists>n. display_name r = Inr n \<and> 60 < sc title n \<and>
             (\<forall>r'\<in>set results. \<forall>n'. display_name r' = Inr n' \<longrightarrow> sc title n' \<le> sc title n))"
  proof (intro allI impI)
    fix r assume some: "get_best_match sc title results = Inr (Some r)"
    then obtain names where names: "names_of results = Inr names"
      by (cases "names_of results") (simp_all add: get_best_match_def)
    have len: "length names = length results" using names by (rule names_of_length)
    from get_best_match_cases [OF names, where sc = sc and title = title] some
    obtain i where i: "i < length results"
      and dn: "display_name (results ! i) = Inr (names ! i)"
      and top: "\<forall>j<length results. sc title (names ! j) \<le> sc title (names ! i)"
      and res: "Inr (Some r) = (Inr (if 60 < sc title (names ! i) then Some (results ! i) else None)
                                 :: py_exception + json_object option)"
      by auto
    from res have gt: "60 < sc title (names ! i)" and r: "r = results ! i"
      by (auto split: if_splits)
    have "\<forall>r'\<in>set results. \<forall>n'. display_name r' = Inr n' \<longrightarrow> sc title n' \<le> sc title (names ! i)"
    proof (intro ballI allI impI)
      fix r' n' assume "r' \<in> set results" "display_name r' = Inr n'"
      then obtain j where j: "j < length results" "results ! j = r'"
        by (auto simp: in_set_conv_nth)
      with names have "display_name r' = Inr (names ! j)" using names_of_nth by blast
      with \<open>display_name r' = Inr n'\<close> have "n' = names ! j" by simp
      with top j show "sc title n' \<le> sc title (names ! i)" by simp
    qed
    with i dn gt r
    show "r \<in> set results \<and>
          (\<exists>n. display_name r = Inr n \<and> 60 < sc title n \<and>
               (\<forall>r'\<in>set results. \<forall>n'. display_name r' = Inr n' \<longrightarrow> sc title n' \<le> sc title n))"
      by auto
  qed
  have second: "\<forall>names. names_of results = Inr names \<and> (\<forall>n\<in>set names. sc title n \<le> 60) \<longrightarrow>
        get_best_match sc title results = Inr None"
  proof (intro allI impI)
    fix names assume a: "names_of results = Inr names \<and> (\<forall>n\<in>set names. sc title n \<le> 60)"
    then have names: "names_of results = Inr names" by simp
    have len: "length names = length results" using names by (rule names_of_length)
    from get_best_match_cases [OF names, where sc = sc and title = title]
    show "get_best_match sc title results = Inr None"
    proof (elim disjE)
      assume "names = [] \<and> get_best_match sc title results = Inr None"
      then show ?thesis by simp
    next
      assume "\<exists>i<length results.
              display_name (results ! i) = Inr (names ! i) \<and>
              (\<forall>j<length results. sc title (names ! j) \<le> sc title (names ! i)) \<and>
              get_best_match sc title results =
                Inr (if 60 < sc title (names ! i) then Some (results ! i) else None)"
      then obtain i where i: "i < length results"
        and res: "get_best_match sc title results =
                Inr (if 60 < sc title (names ! i) then Some (results ! i) else None)"
        by blast
      from i len have "names ! i \<in> set names" by simp
      with a have "sc title (names ! i) \<le> 60" by blast
      with res show ?thesis by simp
    qed
  qed
  have third: "\<forall>names. names_of results = Inr names \<and> (\<exists>n\<in>set names. 60 < sc title n) \<longrightarrow>
        (\<exists>r. get_best_match sc title results = Inr (Some r))"
  proof (intro allI impI)
    fix names assume a: "names_of results = Inr names \<and> (\<exists>n\<in>set names. 60 < sc title n)"
    then have names: "names_of results = Inr names" by simp
    have len: "length names = length results" using names by (rule names_of_length)
    from a obtain j where j: "j < length results" "60 < sc title (names ! j)"
      using len by (auto simp: in_set_conv_nth)
    then have "names \<noteq> []" using len by auto
    with get_best_match_cases [OF names, where sc = sc and title = title]
    obtain i where i: "i < length results"
      and top: "\<forall>j<length results. sc title (names ! j) \<le> sc title (names ! i)"
      and res: "get_best_match sc title results =
                Inr (if 60 < sc title (names ! i) then Some (results ! i) else None)"
      by blast
    from top j have "60 < sc title (names ! i)" by force
    with res show "\<exists>r. get_best_match sc title results = Inr (Some r)" by simp
  qed
  from first second third show ?thesis by blast
qed

lemma demo_names: "names_of demo_results = Inr [''Dune'', ''Dune: Prophecy'', ''Dune'']"
  by code_simp

lemma demo_match:
  "get_best_match exact_scorer ''Dune'' demo_results =
     Inr (Some [(''media_type'', ''movie''), (''title'', ''Dune''), (''release_date'', ''1984-12-14'')])"
  by code_simp

theorem get_best_match_threshold_witness:
  "(\<exists>n. display_name [(''media_type'', ''movie''), (''title'', ''Dune''), (''release_date'', ''1984-12-14'')] = Inr n \<and>
        60 < exact_scorer ''Dune'' n) \<and>
   get_best_match exact_scorer ''Arrakis'' demo_results = Inr None \<and>
   (\<exists>r. get_best_match exact_scorer ''Dune: Prophecy'' demo_results = Inr (Some r))"
proof -
  have low: "names_of demo_results = Inr [''Dune'', ''Dune: Prophecy'', ''Dune''] \<and>
        (\<forall>n\<in>set [''Dune'', ''Dune: Prophecy'', ''Dune'']. exact_scorer ''Arrakis'' n \<le> 60)"
    by (simp add: demo_names exact_scorer_def)
  have high: "names_of demo_results = Inr [''Dune'', ''Dune: Prophecy'', ''Dune''] \<and>
        (\<exists>n\<in>set [''Dune'', ''Dune: Prophecy'', ''Dune'']. 60 < exact_scorer ''Dune: Prophecy'' n)"
    by (simp add: demo_names exact_scorer_def)
  from get_best_match_threshold [of exact_scorer "''Dune''" demo_results] demo_match
  have "\<exists>n. display_name [(''media_type'', ''movie''), (''title'', ''Dune''), (''release_date'', ''1984-12-14'')] = Inr n \<and>
        60 < exact_scorer ''Dune'' n"
    by blast
  moreover from get_best_match_threshold [of exact_scorer "''Arrakis''" demo_results] low
  have "get_best_match exact_scorer ''Arrakis'' demo_results = Inr None" by blast
  moreover from get_best_match_threshold [of exact_scorer "''Dune: Prophecy''" demo_results] high
  have "\<exists>r. get_best_match exact_scorer ''Dune: Prophecy'' demo_results = Inr (Some r)" by blast
  ultimately show ?thesis by blast
qed

subsection \<open>Autocomplete\<close>















end
